theory Spec2Isabelle
  imports Complex_Main
begin

section \<open>Data model\<close>

text \<open>
  The class \<open>Player\<close>: a symbol and the kind of artificial player (\<open>None\<close> for a human).
\<close>

record player =
  symbol :: string
  ai_type :: "string option"

text \<open>
  The class \<open>Gomoku\<close>. Cells hold Python strings: \<open>''.''\<close> is the empty cell, and the
  marks are whatever symbols the players carry. The board is a list of rows.
\<close>

record gomoku =
  board_size :: int
  win_length :: int
  ai_time_limit :: real
  board :: "string list list"
  current_player :: "player option"
  nodes_expanded :: int

text \<open>Python's \<open>range(a, b)\<close>; \<open>range(n)\<close> is \<open>py_range 0 n\<close>.\<close>

definition py_range :: "int \<Rightarrow> int \<Rightarrow> int list" where
  "py_range a b = [a..b - 1]"

text \<open>The constructor \<open>__init__\<close>.\<close>

definition init_gomoku :: "int \<Rightarrow> int \<Rightarrow> real \<Rightarrow> gomoku" where
  "init_gomoku bs wl tlim =
     \<lparr>board_size = bs, win_length = wl, ai_time_limit = tlim,
      board = map (\<lambda>_. map (\<lambda>_. ''.'') (py_range 0 bs)) (py_range 0 bs),
      current_player = None, nodes_expanded = 0\<rparr>"

text \<open>
  The shape that \<open>__init__\<close> gives the board and that no method changes: \<open>board_size\<close>
  rows of \<open>board_size\<close> cells. Under it every read and write below is in range.
\<close>

definition wf_board :: "gomoku \<Rightarrow> bool" where
  "wf_board g \<longleftrightarrow>
     length (board g) = nat (board_size g) \<and>
     (\<forall>r \<in> set (board g). length r = nat (board_size g))"

text \<open>
  \<open>self.board[row][col]\<close>, read and written. The source guards every read and every write
  by \<open>0 <= row < board_size\<close> and \<open>0 <= col < board_size\<close>, so an index is never negative
  when it is used.
\<close>

definition cell_at :: "gomoku \<Rightarrow> int \<Rightarrow> int \<Rightarrow> string" where
  "cell_at g row col = board g ! nat row ! nat col"

definition set_cell :: "gomoku \<Rightarrow> int \<Rightarrow> int \<Rightarrow> string \<Rightarrow> gomoku" where
  "set_cell g row col v =
     g\<lparr>board := (board g)[nat row := (board g ! nat row)[nat col := v]]\<rparr>"

section \<open>Board state\<close>

definition is_valid_move :: "gomoku \<Rightarrow> int \<Rightarrow> int \<Rightarrow> bool" where
  "is_valid_move g row col \<longleftrightarrow>
     0 \<le> row \<and> row < board_size g \<and> 0 \<le> col \<and> col < board_size g \<and>
     cell_at g row col = ''.''"

definition make_move :: "gomoku \<Rightarrow> player \<Rightarrow> int \<Rightarrow> int \<Rightarrow> bool \<times> gomoku" where
  "make_move g p row col =
     (if is_valid_move g row col then (True, set_cell g row col (symbol p))
      else (False, g))"

text \<open>
  The retraction of a speculative move is the statement \<open>self.board[row][col] = '.'\<close> of
  the strategies and of the search.
\<close>

definition retract :: "gomoku \<Rightarrow> int \<Rightarrow> int \<Rightarrow> gomoku" where
  "retract g row col = set_cell g row col ''.''"

definition is_full :: "gomoku \<Rightarrow> bool" where
  "is_full g \<longleftrightarrow> list_all (\<lambda>row. ''.'' \<notin> set row) (board g)"

text \<open>
  The states a game can be in: the constructed one, and whatever the methods make of it
  (a move of any player, a retraction in the board, a new time limit read by \<open>play\<close>, a
  count of expanded nodes).
\<close>

inductive reachable :: "gomoku \<Rightarrow> bool" where
  reach_init: "reachable (init_gomoku bs wl tlim)"
| reach_move: "reachable g \<Longrightarrow> reachable (snd (make_move g p row col))"
| reach_retract:
    "reachable g \<Longrightarrow> 0 \<le> row \<Longrightarrow> row < board_size g \<Longrightarrow> 0 \<le> col \<Longrightarrow> col < board_size g \<Longrightarrow>
       reachable (retract g row col)"
| reach_limit: "reachable g \<Longrightarrow> reachable (g\<lparr>ai_time_limit := t\<rparr>)"
| reach_player: "reachable g \<Longrightarrow> reachable (g\<lparr>current_player := q\<rparr>)"
| reach_nodes: "reachable g \<Longrightarrow> reachable (g\<lparr>nodes_expanded := n\<rparr>)"

section \<open>Positional evaluator\<close>

definition count_aligned :: "gomoku \<Rightarrow> int \<Rightarrow> int \<Rightarrow> string \<Rightarrow> int" where
  "count_aligned g row col mark =
     fold (\<lambda>(dr, dc) count.
         fold (\<lambda>i count.
             let r = row + dr * i; c = col + dc * i
             in if 0 \<le> r \<and> r < board_size g \<and> 0 \<le> c \<and> c < board_size g \<and>
                   cell_at g r c = mark
                then count + 1 else count)
           (py_range (- win_length g + 1) (win_length g)) count)
       [(1, 0), (0, 1), (1, 1), (1, - 1)] 0"

definition count_adjacent_spaces :: "gomoku \<Rightarrow> int \<Rightarrow> int \<Rightarrow> int" where
  "count_adjacent_spaces g row col =
     fold (\<lambda>(dr, dc) count.
         let r = row + dr; c = col + dc
         in if 0 \<le> r \<and> r < board_size g \<and> 0 \<le> c \<and> c < board_size g \<and>
               cell_at g r c = ''.''
            then count + 1 else count)
       [(1, 0), (0, 1), (1, 1), (1, - 1), (- 1, - 1), (- 1, 1), (- 1, 0), (0, - 1)] 0"

definition potential_extension :: "gomoku \<Rightarrow> int \<Rightarrow> int \<Rightarrow> string \<Rightarrow> int" where
  "potential_extension g row col mark =
     fold (\<lambda>(dr, dc) potential.
         fold (\<lambda>i potential.
             let r = row + dr * i; c = col + dc * i
             in if 0 \<le> r \<and> r < board_size g \<and> 0 \<le> c \<and> c < board_size g
                then (if cell_at g r c = mark \<or> cell_at g r c = ''.''
                      then potential + 1 else potential)
                else potential)
           (py_range (- win_length g + 1) (win_length g)) potential)
       [(1, 0), (0, 1), (1, 1), (1, - 1)] 0"

definition evaluate_board :: "gomoku \<Rightarrow> string \<Rightarrow> int" where
  "evaluate_board g mark =
     (let opponent_symbol = (if mark = ''O'' then ''X'' else ''O'');
          center = board_size g div 2
      in fold (\<lambda>row score.
           fold (\<lambda>col score.
               if cell_at g row col = mark
               then score + count_aligned g row col mark
                      + max 0 (5 - (\<bar>row - center\<bar> + \<bar>col - center\<bar>))
                      + count_adjacent_spaces g row col
                      + potential_extension g row col mark
               else if cell_at g row col = opponent_symbol
               then score - count_aligned g row col opponent_symbol
               else score)
             (py_range 0 (board_size g)) score)
         (py_range 0 (board_size g)) 0)"

subsection \<open>The evaluator as the specification words it\<close>

text \<open>
  The window of \<open>2 * win_length - 1\<close> offsets centred on a cell, the four axes, the eight
  neighbours, and the four terms of a cell.
\<close>

definition in_bounds :: "gomoku \<Rightarrow> int \<Rightarrow> int \<Rightarrow> bool" where
  "in_bounds g r c \<longleftrightarrow> 0 \<le> r \<and> r < board_size g \<and> 0 \<le> c \<and> c < board_size g"

definition window :: "gomoku \<Rightarrow> int set" where
  "window g = {- (win_length g - 1) .. win_length g - 1}"

definition axes :: "(int \<times> int) set" where
  "axes = {(1, 0), (0, 1), (1, 1), (1, - 1)}"

definition neighbours :: "(int \<times> int) set" where
  "neighbours = {- 1, 0, 1} \<times> {- 1, 0, 1} - {(0, 0)}"

definition alignment_spec :: "gomoku \<Rightarrow> string \<Rightarrow> int \<Rightarrow> int \<Rightarrow> int" where
  "alignment_spec g mark row col =
     (\<Sum>d \<in> axes. int (card {i \<in> window g.
        in_bounds g (row + fst d * i) (col + snd d * i) \<and>
        cell_at g (row + fst d * i) (col + snd d * i) = mark}))"

definition center_spec :: "gomoku \<Rightarrow> int \<Rightarrow> int \<Rightarrow> int" where
  "center_spec g row col =
     max 0 (5 - (\<bar>row - board_size g div 2\<bar> + \<bar>col - board_size g div 2\<bar>))"

definition adjacency_spec :: "gomoku \<Rightarrow> int \<Rightarrow> int \<Rightarrow> int" where
  "adjacency_spec g row col =
     int (card {d \<in> neighbours.
        in_bounds g (row + fst d) (col + snd d) \<and>
        cell_at g (row + fst d) (col + snd d) = ''.''})"

definition extension_spec :: "gomoku \<Rightarrow> string \<Rightarrow> int \<Rightarrow> int \<Rightarrow> int" where
  "extension_spec g mark row col =
     (\<Sum>d \<in> axes. int (card {i \<in> window g.
        in_bounds g (row + fst d * i) (col + snd d * i) \<and>
        (cell_at g (row + fst d * i) (col + snd d * i) = mark \<or>
         cell_at g (row + fst d * i) (col + snd d * i) = ''.'')}))"

definition cells_holding :: "gomoku \<Rightarrow> string \<Rightarrow> (int \<times> int) set" where
  "cells_holding g mark =
     {rc \<in> {0..<board_size g} \<times> {0..<board_size g}. cell_at g (fst rc) (snd rc) = mark}"

definition opponent_of :: "string \<Rightarrow> string" where
  "opponent_of mark = (if mark = ''O'' then ''X'' else ''O'')"

definition evaluate_spec :: "gomoku \<Rightarrow> string \<Rightarrow> int" where
  "evaluate_spec g mark =
     (\<Sum>rc \<in> cells_holding g mark.
        alignment_spec g mark (fst rc) (snd rc) + center_spec g (fst rc) (snd rc) +
        adjacency_spec g (fst rc) (snd rc) + extension_spec g mark (fst rc) (snd rc))
     - (\<Sum>rc \<in> cells_holding g (opponent_of mark).
        alignment_spec g (opponent_of mark) (fst rc) (snd rc))"

section \<open>Win detector\<close>

text \<open>
  The loop of \<open>check_direction\<close>: at most \<open>n\<close> more steps from \<open>(row, col)\<close>, leaving at
  the first cell that is out of bounds or does not hold the symbol.
\<close>

fun check_direction_loop ::
  "gomoku \<Rightarrow> int \<Rightarrow> int \<Rightarrow> string \<Rightarrow> nat \<Rightarrow> int \<Rightarrow> int \<Rightarrow> int \<Rightarrow> int" where
  "check_direction_loop g row_delta col_delta mark 0 row col count = count"
| "check_direction_loop g row_delta col_delta mark (Suc n) row col count =
     (if 0 \<le> row \<and> row < board_size g \<and> 0 \<le> col \<and> col < board_size g \<and>
         cell_at g row col = mark
      then check_direction_loop g row_delta col_delta mark n
             (row + row_delta) (col + col_delta) (count + 1)
      else count)"

text \<open>\<open>range(self.win_length)\<close> runs \<open>nat (win_length g)\<close> times.\<close>

definition check_direction :: "gomoku \<Rightarrow> int \<Rightarrow> int \<Rightarrow> int \<Rightarrow> int \<Rightarrow> string \<Rightarrow> bool" where
  "check_direction g row col row_delta col_delta mark \<longleftrightarrow>
     check_direction_loop g row_delta col_delta mark (nat (win_length g)) row col 0
       = win_length g"

text \<open>
  \<open>check_win\<close> returns at the first origin with a winning direction; the loops have no
  other effect, so they are the two nested existence tests.
\<close>

definition check_win :: "gomoku \<Rightarrow> player \<Rightarrow> bool" where
  "check_win g p \<longleftrightarrow>
     list_ex (\<lambda>row. list_ex (\<lambda>col.
         check_direction g row col 1 0 (symbol p) \<or>
         check_direction g row col 0 1 (symbol p) \<or>
         check_direction g row col 1 1 (symbol p) \<or>
         check_direction g row col 1 (- 1) (symbol p))
       (py_range 0 (board_size g))) (py_range 0 (board_size g))"

text \<open>
  The specification's notion: a forward run of \<open>n\<close> cells from an origin along a
  direction \<open>(dr, dc)\<close> of (row, column) steps, all within the bounds and all holding the
  symbol. A run has a number of cells, so \<open>n\<close> is not negative. The four directions of the
  specification are right, down, down-right and up-right.
\<close>

definition forward_run :: "gomoku \<Rightarrow> string \<Rightarrow> int \<Rightarrow> int \<Rightarrow> int \<Rightarrow> int \<times> int \<Rightarrow> bool" where
  "forward_run g mark n row col d \<longleftrightarrow>
     0 \<le> n \<and>
     (\<forall>i \<in> {0..<n}.
        0 \<le> row + i * fst d \<and> row + i * fst d < board_size g \<and>
        0 \<le> col + i * snd d \<and> col + i * snd d < board_size g \<and>
        cell_at g (row + i * fst d) (col + i * snd d) = mark)"

definition spec_directions :: "(int \<times> int) list" where
  "spec_directions = [(0, 1), (1, 0), (1, 1), (- 1, 1)]"

definition has_win_spec :: "gomoku \<Rightarrow> string \<Rightarrow> bool" where
  "has_win_spec g mark \<longleftrightarrow>
     (\<exists>row \<in> {0..<board_size g}. \<exists>col \<in> {0..<board_size g}. \<exists>d \<in> set spec_directions.
        forward_run g mark (win_length g) row col d)"

section \<open>Scores\<close>

text \<open>
  The strategies compare the integer scores of \<open>evaluate_board\<close> with \<open>float('-inf')\<close>
  and \<open>float('inf')\<close>: a score is an integer or one of the two infinities.
\<close>

datatype score = NegInf | Fin int | PosInf

instantiation score :: linorder
begin

fun less_eq_score :: "score \<Rightarrow> score \<Rightarrow> bool" where
  "less_eq_score NegInf y = True"
| "less_eq_score (Fin a) NegInf = False"
| "less_eq_score (Fin a) (Fin b) = (a \<le> b)"
| "less_eq_score (Fin a) PosInf = True"
| "less_eq_score PosInf PosInf = True"
| "less_eq_score PosInf y = False"

definition less_score :: "score \<Rightarrow> score \<Rightarrow> bool" where
  "less_score x y \<longleftrightarrow> x \<le> y \<and> \<not> y \<le> (x::score)"

instance
proof
  fix x y z :: score
  show "x < y \<longleftrightarrow> x \<le> y \<and> \<not> y \<le> x" by (rule less_score_def)
  show "x \<le> x" by (cases x) simp_all
  show "x \<le> y \<Longrightarrow> y \<le> z \<Longrightarrow> x \<le> z" by (cases x; cases y; cases z) simp_all
  show "x \<le> y \<Longrightarrow> y \<le> x \<Longrightarrow> x = y" by (cases x; cases y) simp_all
  show "x \<le> y \<or> y \<le> x" by (cases x; cases y) auto
qed

end

section \<open>One-ply strategies\<close>

text \<open>
  \<open>random.choice\<close> draws from the list of valid moves; the draw is the parameter \<open>rnd\<close>.
\<close>

definition random_ai :: "gomoku \<Rightarrow> nat \<Rightarrow> (int \<times> int) option" where
  "random_ai g rnd =
     (let valid_moves =
        concat (map (\<lambda>r. map (\<lambda>c. (r, c))
                  (filter (\<lambda>c. is_valid_move g r c) (py_range 0 (board_size g))))
                (py_range 0 (board_size g)))
      in if valid_moves \<noteq> [] then Some (valid_moves ! (rnd mod length valid_moves)) else None)"

text \<open>
  The strategies write on the board of the game and write the empty cell back, so the
  game is part of the state of their loops and is returned with the move.
\<close>

definition greedy_ai :: "gomoku \<Rightarrow> string \<Rightarrow> (int \<times> int) option \<times> gomoku" where
  "greedy_ai g0 mark =
     (let (g, best_move, best_score) =
        fold (\<lambda>row st.
            fold (\<lambda>col (g, best_move, best_score).
                if is_valid_move g row col
                then let g1 = set_cell g row col mark;
                         score = Fin (evaluate_board g1 mark);
                         g2 = set_cell g1 row col ''.''
                     in if score > best_score then (g2, Some (row, col), score)
                        else (g2, best_move, best_score)
                else (g, best_move, best_score))
              (py_range 0 (board_size g0)) st)
          (py_range 0 (board_size g0)) (g0, None, NegInf)
      in (best_move, g))"

definition worst_ai :: "gomoku \<Rightarrow> string \<Rightarrow> (int \<times> int) option \<times> gomoku" where
  "worst_ai g0 opponent_symbol =
     (let (g, worst_move, worst_score) =
        fold (\<lambda>row st.
            fold (\<lambda>col (g, worst_move, worst_score).
                if is_valid_move g row col
                then let g1 = set_cell g row col opponent_symbol;
                         score = Fin (evaluate_board g1 opponent_symbol);
                         g2 = set_cell g1 row col ''.''
                     in if score < worst_score then (g2, Some (row, col), score)
                        else (g2, worst_move, worst_score)
                else (g, worst_move, worst_score))
              (py_range 0 (board_size g0)) st)
          (py_range 0 (board_size g0)) (g0, None, PosInf)
      in (worst_move, g))"

section \<open>Search controller\<close>

text \<open>
  \<open>time.time()\<close> is read from a clock outside the program: \<open>clock k\<close> is the value of the
  \<open>k\<close>-th reading, and the number \<open>k\<close> of readings made so far is threaded through the
  search next to the game.

  The inner loop of a maximizing node over the columns of one row. \<open>rec\<close> is the recursive
  call \<open>self.minimax(depth - 1, alpha, beta, False, ...)\<close>. The \<open>break\<close> leaves this loop
  only; the loop over the rows goes on.
\<close>

fun max_cols ::
  "(score \<Rightarrow> score \<Rightarrow> gomoku \<times> nat \<Rightarrow> score \<times> gomoku \<times> nat) \<Rightarrow> string \<Rightarrow> score \<Rightarrow> int \<Rightarrow>
     int list \<Rightarrow> gomoku \<times> nat \<times> score \<times> score \<Rightarrow> gomoku \<times> nat \<times> score \<times> score" where
  "max_cols rec mark beta row [] st = st"
| "max_cols rec mark beta row (col # cols) (g, k, best_value, alpha) =
     (if is_valid_move g row col
      then let g1 = set_cell g row col mark;
               (val, g2, k2) = rec alpha beta (g1, k);
               g3 = set_cell g2 row col ''.'';
               best_value = max best_value val;
               alpha = max alpha val
           in if beta \<le> alpha then (g3, k2, best_value, alpha)
              else max_cols rec mark beta row cols
                     (g3\<lparr>nodes_expanded := nodes_expanded g3 + 1\<rparr>, k2, best_value, alpha)
      else max_cols rec mark beta row cols (g, k, best_value, alpha))"

text \<open>The same loop of a minimizing node; it carries \<open>beta\<close>.\<close>

fun min_cols ::
  "(score \<Rightarrow> score \<Rightarrow> gomoku \<times> nat \<Rightarrow> score \<times> gomoku \<times> nat) \<Rightarrow> string \<Rightarrow> score \<Rightarrow> int \<Rightarrow>
     int list \<Rightarrow> gomoku \<times> nat \<times> score \<times> score \<Rightarrow> gomoku \<times> nat \<times> score \<times> score" where
  "min_cols rec mark alpha row [] st = st"
| "min_cols rec mark alpha row (col # cols) (g, k, best_value, beta) =
     (if is_valid_move g row col
      then let g1 = set_cell g row col mark;
               (val, g2, k2) = rec alpha beta (g1, k);
               g3 = set_cell g2 row col ''.'';
               best_value = min best_value val;
               beta = min beta val
           in if beta \<le> alpha then (g3, k2, best_value, beta)
              else min_cols rec mark alpha row cols
                     (g3\<lparr>nodes_expanded := nodes_expanded g3 + 1\<rparr>, k2, best_value, beta)
      else min_cols rec mark alpha row cols (g, k, best_value, beta))"

text \<open>
  \<open>minimax\<close>. The depth is a natural number: \<open>iterative_deepening\<close> calls with
  \<open>depth - 1\<close> for \<open>depth \<ge> 1\<close>, and the recursion goes down by one from a depth that is
  not 0. The clock is read only when the depth is not 0 and the board is not full, as the
  \<open>or\<close> of the source evaluates.
\<close>

fun minimax ::
  "(nat \<Rightarrow> real) \<Rightarrow> nat \<Rightarrow> score \<Rightarrow> score \<Rightarrow> bool \<Rightarrow> string \<Rightarrow> string \<Rightarrow> real \<Rightarrow>
     gomoku \<times> nat \<Rightarrow> score \<times> gomoku \<times> nat" where
  "minimax clock 0 alpha beta maximizing_player mark opponent_symbol start_time (g, k) =
     (Fin (evaluate_board g mark), g, k)"
| "minimax clock (Suc d) alpha beta maximizing_player mark opponent_symbol start_time (g, k) =
     (if is_full g then (Fin (evaluate_board g mark), g, k)
      else if clock k - start_time > ai_time_limit g then (Fin (evaluate_board g mark), g, Suc k)
      else if maximizing_player
      then let (g', k', best_value, alpha') =
             fold (\<lambda>row st.
                 max_cols (\<lambda>a b s. minimax clock d a b False mark opponent_symbol start_time s)
                   mark beta row (py_range 0 (board_size g)) st)
               (py_range 0 (board_size g)) (g, Suc k, NegInf, alpha)
           in (best_value, g', k')
      else let (g', k', best_value, beta') =
             fold (\<lambda>row st.
                 min_cols (\<lambda>a b s. minimax clock d a b True mark opponent_symbol start_time s)
                   opponent_symbol alpha row (py_range 0 (board_size g)) st)
               (py_range 0 (board_size g)) (g, Suc k, PosInf, beta)
           in (best_value, g', k'))"

text \<open>One sweep of \<open>iterative_deepening\<close>: the two \<open>for\<close> loops at a given depth.\<close>

definition sweep ::
  "(nat \<Rightarrow> real) \<Rightarrow> nat \<Rightarrow> string \<Rightarrow> string \<Rightarrow> real \<Rightarrow> gomoku \<times> nat \<Rightarrow>
     gomoku \<times> nat \<times> (int \<times> int) option \<times> score" where
  "sweep clock depth mark opponent_symbol start_time s0 =
     fold (\<lambda>row st.
         fold (\<lambda>col (g, k, current_best_move, current_best_score).
             if is_valid_move g row col
             then let g1 = set_cell g row col mark;
                      (score, g2, k2) =
                        minimax clock (depth - 1) NegInf PosInf False mark opponent_symbol
                          start_time (g1, k);
                      g3 = set_cell g2 row col ''.''
                  in if score > current_best_score then (g3, k2, Some (row, col), score)
                     else (g3, k2, current_best_move, current_best_score)
             else (g, k, current_best_move, current_best_score))
           (py_range 0 (board_size (fst s0))) st)
       (py_range 0 (board_size (fst s0))) (fst s0, snd s0, None, NegInf)"

text \<open>
  The body of the \<open>while\<close> loop of \<open>iterative_deepening\<close> on the loop state (depth, best
  move, best score, game, clock readings): the sweep, then the commit of its move.
\<close>

definition deepening_step ::
  "(nat \<Rightarrow> real) \<Rightarrow> string \<Rightarrow> string \<Rightarrow> real \<Rightarrow>
     nat \<times> (int \<times> int) option \<times> score \<times> gomoku \<times> nat \<Rightarrow>
     nat \<times> (int \<times> int) option \<times> score \<times> gomoku \<times> nat" where
  "deepening_step clock mark opponent_symbol start_time st =
     (case st of (depth, best_move, best_score, g, k) \<Rightarrow>
        (case sweep clock depth mark opponent_symbol start_time (g, k) of
           (g', k', current_best_move, current_best_score) \<Rightarrow>
             if current_best_move \<noteq> None
             then (depth + 1, current_best_move, current_best_score, g', k')
             else (depth + 1, best_move, best_score, g', k')))"

text \<open>
  The loop state at the head of the \<open>while\<close> loop after \<open>n\<close> turns, each turn being
  the reading of the clock for the guard and the body.
\<close>

primrec deepening_states ::
  "(nat \<Rightarrow> real) \<Rightarrow> string \<Rightarrow> string \<Rightarrow> real \<Rightarrow>
     nat \<times> (int \<times> int) option \<times> score \<times> gomoku \<times> nat \<Rightarrow> nat \<Rightarrow>
     nat \<times> (int \<times> int) option \<times> score \<times> gomoku \<times> nat" where
  "deepening_states clock mark opponent_symbol start_time st 0 = st"
| "deepening_states clock mark opponent_symbol start_time st (Suc n) =
     (case deepening_states clock mark opponent_symbol start_time st n of
        (depth, best_move, best_score, g, k) \<Rightarrow>
          deepening_step clock mark opponent_symbol start_time
            (depth, best_move, best_score, g, Suc k))"

text \<open>
  The \<open>while\<close> loop. Each test of the guard reads the clock. The loop need not end (the
  clock may stand still), so the result is an option: \<open>None\<close> is "does not return".
\<close>

partial_function (option) deepening_loop ::
  "(nat \<Rightarrow> real) \<Rightarrow> string \<Rightarrow> string \<Rightarrow> real \<Rightarrow>
     nat \<times> (int \<times> int) option \<times> score \<times> gomoku \<times> nat \<Rightarrow>
     ((int \<times> int) option \<times> gomoku \<times> nat) option" where
  "deepening_loop clock mark opponent_symbol start_time st =
     (if clock (snd (snd (snd (snd st)))) - start_time < ai_time_limit (fst (snd (snd (snd st))))
      then deepening_loop clock mark opponent_symbol start_time
             (deepening_step clock mark opponent_symbol start_time
                (fst st, fst (snd st), fst (snd (snd st)), fst (snd (snd (snd st))),
                 Suc (snd (snd (snd (snd st))))))
      else Some (fst (snd st), fst (snd (snd (snd st))), Suc (snd (snd (snd (snd st))))))"

declare deepening_loop.simps [code]

definition iterative_deepening ::
  "(nat \<Rightarrow> real) \<Rightarrow> gomoku \<times> nat \<Rightarrow> string \<Rightarrow> string \<Rightarrow>
     ((int \<times> int) option \<times> gomoku \<times> nat) option" where
  "iterative_deepening clock s mark opponent_symbol =
     deepening_loop clock mark opponent_symbol (clock (snd s))
       (1, None, NegInf, fst s, Suc (snd s))"

text \<open>
  \<open>get_ai_move\<close>: the strategy named by the player's \<open>ai_type\<close>. The result is the move
  with the game and the clock readings after the call, if the call returns.
\<close>

definition get_ai_move ::
  "(nat \<Rightarrow> real) \<Rightarrow> nat \<Rightarrow> gomoku \<times> nat \<Rightarrow> player \<Rightarrow> player \<Rightarrow>
     ((int \<times> int) option \<times> gomoku \<times> nat) option" where
  "get_ai_move clock rnd s p opponent =
     (if ai_type p = Some ''random'' then Some (random_ai (fst s) rnd, fst s, snd s)
      else if ai_type p = Some ''greedy''
      then Some (fst (greedy_ai (fst s) (symbol p)), snd (greedy_ai (fst s) (symbol p)), snd s)
      else if ai_type p = Some ''worst''
      then Some (fst (worst_ai (fst s) (symbol opponent)),
                 snd (worst_ai (fst s) (symbol opponent)), snd s)
      else if ai_type p = Some ''expert''
      then iterative_deepening clock s (symbol p) (symbol opponent)
      else Some (None, fst s, snd s))"

section \<open>Selection in scan order\<close>

text \<open>
  The cells in row-major scan order, the order itself, and the selection that the
  strategies make: keep the candidate met first among those with the best key.
\<close>

definition row_major_cells :: "gomoku \<Rightarrow> (int \<times> int) list" where
  "row_major_cells g = List.product (py_range 0 (board_size g)) (py_range 0 (board_size g))"

definition row_major_less :: "int \<times> int \<Rightarrow> int \<times> int \<Rightarrow> bool" where
  "row_major_less a b \<longleftrightarrow> fst a < fst b \<or> (fst a = fst b \<and> snd a < snd b)"

definition keep_best ::
  "('b \<Rightarrow> 'b \<Rightarrow> bool) \<Rightarrow> ('a \<Rightarrow> bool) \<Rightarrow> ('a \<Rightarrow> 'b) \<Rightarrow> 'a \<Rightarrow> 'a option \<times> 'b \<Rightarrow> 'a option \<times> 'b" where
  "keep_best better P key x st = (if P x \<and> better (key x) (snd st) then (Some x, key x) else st)"

section \<open>What a search call may change\<close>

text \<open>
  A search call reads the clock and counts nodes; everything else of the game, the board
  included, is to be as it was at entry.
\<close>

definition search_frame :: "gomoku \<times> nat \<Rightarrow> gomoku \<times> nat \<Rightarrow> bool" where
  "search_frame s s' \<longleftrightarrow>
     fst s' = (fst s)\<lparr>nodes_expanded := nodes_expanded (fst s')\<rparr> \<and> snd s \<le> snd s'"

section \<open>Minimax without pruning\<close>

text \<open>
  The reference of the specification for the pruned search: minimax of a fixed depth with
  no window, no clock and no counter, on boards as values. A node at depth 0 or on a full
  board is scored by \<open>evaluate_board\<close> for the root player's symbol; a maximizing node
  takes the greatest value of its valid cells, scanned in row-major order, after placing
  the symbol there; a minimizing node the least, placing the opponent's symbol.
\<close>

fun unpruned_minimax :: "nat \<Rightarrow> bool \<Rightarrow> string \<Rightarrow> string \<Rightarrow> gomoku \<Rightarrow> score" where
  "unpruned_minimax 0 maximizing_player mark opponent_symbol g = Fin (evaluate_board g mark)"
| "unpruned_minimax (Suc d) maximizing_player mark opponent_symbol g =
     (if is_full g then Fin (evaluate_board g mark)
      else if maximizing_player
      then fold (\<lambda>rc best.
               if is_valid_move g (fst rc) (snd rc)
               then max best (unpruned_minimax d False mark opponent_symbol
                                (set_cell g (fst rc) (snd rc) mark))
               else best)
             (row_major_cells g) NegInf
      else fold (\<lambda>rc best.
               if is_valid_move g (fst rc) (snd rc)
               then min best (unpruned_minimax d True mark opponent_symbol
                                (set_cell g (fst rc) (snd rc) opponent_symbol))
               else best)
             (row_major_cells g) PosInf)"

text \<open>
  The root move of the unpruned search at a depth of at least 1: the first valid cell in
  row-major order whose value, after placing the symbol there, is the greatest.
\<close>

definition unpruned_best_move :: "nat \<Rightarrow> string \<Rightarrow> string \<Rightarrow> gomoku \<Rightarrow> (int \<times> int) option" where
  "unpruned_best_move depth mark opponent_symbol g =
     fst (fold (keep_best (>) (\<lambda>rc. is_valid_move g (fst rc) (snd rc))
                  (\<lambda>rc. unpruned_minimax (depth - 1) False mark opponent_symbol
                          (set_cell g (fst rc) (snd rc) mark)))
            (row_major_cells g) (None, NegInf))"

text \<open>
  What the result \<open>r\<close> of a search with the window \<open>(alpha, beta)\<close> says about the value \<open>v\<close>
  of the node: at or below \<open>alpha\<close> together, at or above \<open>beta\<close> together, and equal when
  \<open>r\<close> is inside the window.
\<close>

definition window_sound :: "score \<Rightarrow> score \<Rightarrow> score \<Rightarrow> score \<Rightarrow> bool" where
  "window_sound alpha beta r v \<longleftrightarrow>
     (r \<le> alpha \<longrightarrow> v \<le> alpha) \<and> (beta \<le> r \<longrightarrow> beta \<le> v) \<and> (alpha < r \<and> r < beta \<longrightarrow> r = v)"

section \<open>Facts about cells\<close>

lemma length_py_range [simp]: "length (py_range a b) = nat (b - a)"
  by (simp add: py_range_def)

lemma set_py_range [simp]: "set (py_range a b) = {a..<b}"
  by (auto simp: py_range_def)

lemma distinct_py_range [simp]: "distinct (py_range a b)"
  by (simp add: py_range_def)

lemma wf_board_init: "wf_board (init_gomoku bs wl tlim)"
  by (auto simp: wf_board_def init_gomoku_def)

lemma ball_set_update:
  "\<forall>r \<in> set xs. P r \<Longrightarrow> P y \<Longrightarrow> \<forall>r \<in> set (xs[i := y]). P r"
proof
  fix r
  assume a: "\<forall>r \<in> set xs. P r" "P y" and r: "r \<in> set (xs[i := y])"
  have "set (xs[i := y]) \<subseteq> insert y (set xs)" by (rule set_update_subset_insert)
  with r have "r = y \<or> r \<in> set xs" by auto
  with a show "P r" by auto
qed

lemma rows_length_update:
  "\<forall>r \<in> set xs. length r = n \<Longrightarrow>
     \<forall>r \<in> set (xs[i := (xs ! i)[j := v]]). length r = n"
proof (cases "i < length xs")
  case True
  assume a: "\<forall>r \<in> set xs. length r = n"
  with True have "length ((xs ! i)[j := v]) = n" by simp
  with a show ?thesis by (rule ball_set_update)
next
  case False
  assume a: "\<forall>r \<in> set xs. length r = n"
  from False have "xs[i := (xs ! i)[j := v]] = xs" by (simp add: list_update_beyond)
  with a show ?thesis by simp
qed

lemma wf_board_set_cell: "wf_board g \<Longrightarrow> wf_board (set_cell g row col v)"
proof -
  assume wf: "wf_board g"
  then have "\<forall>r \<in> set (board g). length r = nat (board_size g)"
    by (simp add: wf_board_def)
  then have "\<forall>r \<in> set ((board g)[nat row := (board g ! nat row)[nat col := v]]).
      length r = nat (board_size g)"
    by (rule rows_length_update)
  with wf show ?thesis by (simp add: wf_board_def set_cell_def)
qed

lemma cell_at_set_cell_same:
  "wf_board g \<Longrightarrow> 0 \<le> row \<Longrightarrow> row < board_size g \<Longrightarrow> 0 \<le> col \<Longrightarrow> col < board_size g \<Longrightarrow>
     cell_at (set_cell g row col v) row col = v"
  by (simp add: cell_at_def set_cell_def wf_board_def)

lemma cell_at_set_cell_other:
  "0 \<le> row \<Longrightarrow> 0 \<le> col \<Longrightarrow> 0 \<le> r \<Longrightarrow> 0 \<le> c \<Longrightarrow> (r, c) \<noteq> (row, col) \<Longrightarrow>
     cell_at (set_cell g row col v) r c = cell_at g r c"
proof (cases "r = row")
  case False
  assume "0 \<le> row" "0 \<le> r"
  with False have "nat r \<noteq> nat row" by simp
  then show ?thesis by (simp add: cell_at_def set_cell_def)
next
  case True
  assume "0 \<le> col" "0 \<le> c" "(r, c) \<noteq> (row, col)"
  with True have ne: "nat c \<noteq> nat col" by simp
  show ?thesis
  proof (cases "nat row < length (board g)")
    case True
    with \<open>r = row\<close> ne show ?thesis by (simp add: cell_at_def set_cell_def)
  next
    case False
    then have "length (board g) \<le> nat row" by simp
    with \<open>r = row\<close> show ?thesis by (simp add: cell_at_def set_cell_def list_update_beyond)
  qed
qed

lemma set_cell_fields [simp]:
  "board_size (set_cell g row col v) = board_size g"
  "win_length (set_cell g row col v) = win_length g"
  "ai_time_limit (set_cell g row col v) = ai_time_limit g"
  "current_player (set_cell g row col v) = current_player g"
  "nodes_expanded (set_cell g row col v) = nodes_expanded g"
  by (simp_all add: set_cell_def)

lemma set_cell_twice [simp]:
  "set_cell (set_cell g row col v) row col w = set_cell g row col w"
proof (cases "nat row < length (board g)")
  case True
  then show ?thesis by (simp add: set_cell_def)
next
  case False
  then have "length (board g) \<le> nat row" by simp
  then show ?thesis by (simp add: set_cell_def list_update_beyond)
qed

lemma set_cell_same_value: "cell_at g row col = v \<Longrightarrow> set_cell g row col v = g"
proof -
  assume "cell_at g row col = v"
  then have "(board g ! nat row)[nat col := v] = board g ! nat row"
    by (metis cell_at_def list_update_id)
  then show ?thesis by (simp add: set_cell_def)
qed

lemma place_retract:
  "cell_at g row col = ''.'' \<Longrightarrow> retract (set_cell g row col v) row col = g"
  by (simp add: retract_def set_cell_same_value)

lemma reachable_wf_board: "reachable g \<Longrightarrow> wf_board g"
proof (induction rule: reachable.induct)
  case (reach_init bs wl tlim)
  show ?case by (rule wf_board_init)
next
  case (reach_move g p row col)
  then show ?case by (simp add: make_move_def wf_board_set_cell)
next
  case (reach_retract g row col)
  then show ?case by (simp add: retract_def wf_board_set_cell)
next
  case (reach_limit g t)
  then show ?case by (simp add: wf_board_def)
next
  case (reach_player g q)
  then show ?case by (simp add: wf_board_def)
next
  case (reach_nodes g n)
  then show ?case by (simp add: wf_board_def)
qed

section \<open>Moves\<close>

text \<open>
  C8. For every pair of integers, \<open>is_valid_move\<close> holds exactly for an empty cell within
  the bounds. When it holds, \<open>make_move\<close> answers true, the cell holds the player's symbol,
  every other cell and every other field is as before; when it does not hold,
  \<open>make_move\<close> answers false and the game is unchanged.
\<close>

theorem make_move_iff_valid:
  "wf_board g \<Longrightarrow>
     (is_valid_move g row col \<longleftrightarrow>
        (0 \<le> row \<and> row < board_size g \<and> 0 \<le> col \<and> col < board_size g) \<and>
        cell_at g row col = ''.'') \<and>
     (fst (make_move g p row col) \<longleftrightarrow> is_valid_move g row col) \<and>
     (is_valid_move g row col \<longrightarrow>
        cell_at (snd (make_move g p row col)) row col = symbol p \<and>
        (\<forall>r c. 0 \<le> r \<and> 0 \<le> c \<and> (r, c) \<noteq> (row, col) \<longrightarrow>
           cell_at (snd (make_move g p row col)) r c = cell_at g r c) \<and>
        snd (make_move g p row col) = g\<lparr>board := board (snd (make_move g p row col))\<rparr> \<and>
        wf_board (snd (make_move g p row col))) \<and>
     (\<not> is_valid_move g row col \<longrightarrow> make_move g p row col = (False, g))"
proof -
  assume wf: "wf_board g"
  have a: "is_valid_move g row col \<longleftrightarrow>
        (0 \<le> row \<and> row < board_size g \<and> 0 \<le> col \<and> col < board_size g) \<and>
        cell_at g row col = ''.''"
    by (auto simp: is_valid_move_def)
  have b: "fst (make_move g p row col) \<longleftrightarrow> is_valid_move g row col"
    by (simp add: make_move_def)
  have c: "cell_at (snd (make_move g p row col)) row col = symbol p"
    if "is_valid_move g row col"
    using that wf by (simp add: make_move_def is_valid_move_def cell_at_set_cell_same)
  have d: "\<forall>r c. 0 \<le> r \<and> 0 \<le> c \<and> (r, c) \<noteq> (row, col) \<longrightarrow>
           cell_at (snd (make_move g p row col)) r c = cell_at g r c"
    if "is_valid_move g row col"
    using that by (simp add: make_move_def is_valid_move_def cell_at_set_cell_other)
  have e: "snd (make_move g p row col) = g\<lparr>board := board (snd (make_move g p row col))\<rparr>"
    by (simp add: make_move_def set_cell_def)
  have f: "wf_board (snd (make_move g p row col))"
    using wf by (simp add: make_move_def wf_board_set_cell)
  have h: "make_move g p row col = (False, g)" if "\<not> is_valid_move g row col"
    using that by (simp add: make_move_def)
  show ?thesis
  proof (cases "is_valid_move g row col")
    case True
    with a b c d e f show ?thesis by simp
  next
    case False
    with a b h show ?thesis by simp
  qed
qed

theorem make_move_iff_valid_witness:
  "wf_board (init_gomoku 3 3 2) \<and>
   is_valid_move (init_gomoku 3 3 2) 1 1 \<and>
   fst (make_move (init_gomoku 3 3 2) \<lparr>symbol = ''X'', ai_type = None\<rparr> 1 1) \<and>
   cell_at (snd (make_move (init_gomoku 3 3 2) \<lparr>symbol = ''X'', ai_type = None\<rparr> 1 1)) 1 1 = ''X'' \<and>
   \<not> is_valid_move (init_gomoku 3 3 2) 3 (- 1) \<and>
   make_move (init_gomoku 3 3 2) \<lparr>symbol = ''X'', ai_type = None\<rparr> 3 (- 1) =
     (False, init_gomoku 3 3 2)"
proof -
  have wf: "wf_board (init_gomoku 3 3 2)" by (rule wf_board_init)
  have v: "is_valid_move (init_gomoku 3 3 2) 1 1"
    by (simp add: init_gomoku_def py_range_def upto.simps is_valid_move_def cell_at_def)
  have n: "\<not> is_valid_move (init_gomoku 3 3 2) 3 (- 1)"
    by (simp add: init_gomoku_def is_valid_move_def)
  from wf v n
    make_move_iff_valid [OF wf, of 1 1 "\<lparr>symbol = ''X'', ai_type = None\<rparr>"]
    make_move_iff_valid [OF wf, of 3 "- 1" "\<lparr>symbol = ''X'', ai_type = None\<rparr>"]
  show ?thesis by simp
qed

text \<open>
  C9. In every reachable state, a successful move followed by the retraction of the same
  cell gives back the state before the move, the whole board included.
\<close>

theorem place_retract_roundtrip:
  "reachable g \<Longrightarrow> make_move g p row col = (True, g') \<Longrightarrow>
     retract g' row col = g \<and> board (retract g' row col) = board g"
proof -
  assume "reachable g" and mv: "make_move g p row col = (True, g')"
  from mv have valid: "is_valid_move g row col" and g': "g' = set_cell g row col (symbol p)"
    by (auto simp: make_move_def split: if_splits)
  from valid have "cell_at g row col = ''.''" by (simp add: is_valid_move_def)
  then have "retract g' row col = g" unfolding g' by (rule place_retract)
  then show ?thesis by simp
qed

theorem place_retract_roundtrip_witness:
  "reachable (init_gomoku 3 3 2) \<and>
   make_move (init_gomoku 3 3 2) \<lparr>symbol = ''X'', ai_type = None\<rparr> 1 1 =
     (True, set_cell (init_gomoku 3 3 2) 1 1 ''X'') \<and>
   retract (set_cell (init_gomoku 3 3 2) 1 1 ''X'') 1 1 = init_gomoku 3 3 2"
proof -
  have r: "reachable (init_gomoku 3 3 2)" by (rule reach_init)
  have m: "make_move (init_gomoku 3 3 2) \<lparr>symbol = ''X'', ai_type = None\<rparr> 1 1 =
     (True, set_cell (init_gomoku 3 3 2) 1 1 ''X'')"
    by (simp add: make_move_def init_gomoku_def py_range_def upto.simps is_valid_move_def
        cell_at_def)
  from r m place_retract_roundtrip [OF r m] show ?thesis by simp
qed


section \<open>The evaluator computes the specified sum\<close>

lemma fold_count:
  "fold (\<lambda>i count. if P i then count + 1 else count) xs (c::int) =
     c + int (length (filter P xs))"
  by (induction xs arbitrary: c) auto

lemma fold_count_card:
  "distinct xs \<Longrightarrow>
     fold (\<lambda>i count. if P i then count + 1 else count) xs (c::int) =
       c + int (card {i \<in> set xs. P i})"
proof -
  assume d: "distinct xs"
  have "{x. P x} \<inter> set xs = {i \<in> set xs. P i}" by auto
  with d show ?thesis by (simp add: fold_count distinct_length_filter)
qed

lemma fold_add:
  "fold (\<lambda>x acc. acc + f x) xs (a::int) = a + sum_list (map f xs)"
  by (induction xs arbitrary: a) auto

lemma fold_add_sum:
  "distinct xs \<Longrightarrow> fold (\<lambda>x acc. acc + f x) xs (a::int) = a + sum f (set xs)"
  by (simp add: fold_add sum_list_distinct_conv_sum_set)

lemma set_window: "set (py_range (- win_length g + 1) (win_length g)) = window g"
  by (auto simp: window_def)

lemma fold_window:
  "fold (\<lambda>i count. if P i then count + 1 else count)
      (py_range (- win_length g + 1) (win_length g)) (c::int) =
     c + int (card {i \<in> window g. P i})"
  unfolding set_window [symmetric] by (rule fold_count_card) simp

lemma count_aligned_spec: "count_aligned g row col mark = alignment_spec g mark row col"
proof -
  let ?F = "\<lambda>d. int (card {i \<in> window g.
        in_bounds g (row + fst d * i) (col + snd d * i) \<and>
        cell_at g (row + fst d * i) (col + snd d * i) = mark})"
  have step: "(\<lambda>i count.
             let r = row + dr * i; c = col + dc * i
             in if 0 \<le> r \<and> r < board_size g \<and> 0 \<le> c \<and> c < board_size g \<and>
                   cell_at g r c = mark
                then count + 1 else count) =
      (\<lambda>i count. if in_bounds g (row + dr * i) (col + dc * i) \<and>
                        cell_at g (row + dr * i) (col + dc * i) = mark
                     then count + 1 else count)" for dr dc
    by (simp add: Let_def in_bounds_def)
  have inner: "fold (\<lambda>i count.
             let r = row + dr * i; c = col + dc * i
             in if 0 \<le> r \<and> r < board_size g \<and> 0 \<le> c \<and> c < board_size g \<and>
                   cell_at g r c = mark
                then count + 1 else count)
           (py_range (- win_length g + 1) (win_length g)) count = count + ?F (dr, dc)"
    for dr dc count
    unfolding step fst_conv snd_conv by (rule fold_window)
  have "count_aligned g row col mark =
      fold (\<lambda>d count. count + ?F d) [(1, 0), (0, 1), (1, 1), (1, - 1)] 0"
    unfolding count_aligned_def inner by (simp add: case_prod_unfold)
  also have "\<dots> = sum ?F (set [(1, 0), (0, 1), (1, 1), (1, - 1)])"
    by (subst fold_add_sum) simp_all
  finally show ?thesis by (simp add: alignment_spec_def axes_def)
qed

lemma potential_extension_spec:
  "potential_extension g row col mark = extension_spec g mark row col"
proof -
  let ?F = "\<lambda>d. int (card {i \<in> window g.
        in_bounds g (row + fst d * i) (col + snd d * i) \<and>
        (cell_at g (row + fst d * i) (col + snd d * i) = mark \<or>
         cell_at g (row + fst d * i) (col + snd d * i) = ''.'')})"
  have step: "(\<lambda>i potential.
             let r = row + dr * i; c = col + dc * i
             in if 0 \<le> r \<and> r < board_size g \<and> 0 \<le> c \<and> c < board_size g
                then (if cell_at g r c = mark \<or> cell_at g r c = ''.''
                      then potential + 1 else potential)
                else potential) =
      (\<lambda>i potential. if in_bounds g (row + dr * i) (col + dc * i) \<and>
                        (cell_at g (row + dr * i) (col + dc * i) = mark \<or>
                         cell_at g (row + dr * i) (col + dc * i) = ''.'')
                     then potential + 1 else potential)" for dr dc
    by (auto simp: Let_def in_bounds_def fun_eq_iff)
  have inner: "fold (\<lambda>i potential.
             let r = row + dr * i; c = col + dc * i
             in if 0 \<le> r \<and> r < board_size g \<and> 0 \<le> c \<and> c < board_size g
                then (if cell_at g r c = mark \<or> cell_at g r c = ''.''
                      then potential + 1 else potential)
                else potential)
           (py_range (- win_length g + 1) (win_length g)) potential = potential + ?F (dr, dc)"
    for dr dc potential
    unfolding step fst_conv snd_conv by (rule fold_window)
  have "potential_extension g row col mark =
      fold (\<lambda>d potential. potential + ?F d) [(1, 0), (0, 1), (1, 1), (1, - 1)] 0"
    unfolding potential_extension_def inner by (simp add: case_prod_unfold)
  also have "\<dots> = sum ?F (set [(1, 0), (0, 1), (1, 1), (1, - 1)])"
    by (subst fold_add_sum) simp_all
  finally show ?thesis by (simp add: extension_spec_def axes_def)
qed

lemma neighbours_list:
  "set [(1, 0), (0, 1), (1, 1), (1, - 1), (- 1, - 1), (- 1, 1), (- 1, 0), (0, - 1)] = neighbours"
  by (auto simp: neighbours_def)

lemma count_adjacent_spaces_spec: "count_adjacent_spaces g row col = adjacency_spec g row col"
proof -
  let ?ds = "[(1, 0), (0, 1), (1, 1), (1, - 1), (- 1, - 1), (- 1, 1), (- 1, 0), (0, - 1)] :: (int \<times> int) list"
  have step: "(\<lambda>(dr, dc) count.
         let r = row + dr; c = col + dc
         in if 0 \<le> r \<and> r < board_size g \<and> 0 \<le> c \<and> c < board_size g \<and>
               cell_at g r c = ''.''
            then count + 1 else count) =
      (\<lambda>d count. if in_bounds g (row + fst d) (col + snd d) \<and>
                       cell_at g (row + fst d) (col + snd d) = ''.''
                    then count + 1 else count)"
    by (simp add: Let_def in_bounds_def case_prod_unfold)
  have "distinct ?ds" by simp
  then have "fold (\<lambda>d count. if in_bounds g (row + fst d) (col + snd d) \<and>
                       cell_at g (row + fst d) (col + snd d) = ''.''
                    then count + 1 else count) ?ds 0 =
      0 + int (card {d \<in> set ?ds. in_bounds g (row + fst d) (col + snd d) \<and>
                       cell_at g (row + fst d) (col + snd d) = ''.''})"
    by (rule fold_count_card)
  then show ?thesis
    unfolding count_adjacent_spaces_def step adjacency_spec_def neighbours_list [symmetric]
    by simp
qed

lemma fold_rows_cols:
  "fold (\<lambda>row score. fold (\<lambda>col score. score + h row col) cs score) rs (a::int) =
     a + sum_list (map (\<lambda>row. sum_list (map (h row) cs)) rs)"
  by (induction rs arbitrary: a) (simp_all add: fold_add)

lemma sum_cells:
  "sum_list (map (\<lambda>row. sum_list (map (h row) (py_range 0 n))) (py_range 0 n)) =
     (\<Sum>rc \<in> {0..<n} \<times> {0..<n}. h (fst rc) (snd rc))"
  by (simp add: sum_list_distinct_conv_sum_set sum.cartesian_product case_prod_unfold)

lemma sum_two_cases:
  assumes "finite A" and "\<And>x. x \<in> A \<Longrightarrow> \<not> (P x \<and> Q x)"
  shows "(\<Sum>x \<in> A. if P x then f x else if Q x then - k x else (0::int)) =
      sum f {x \<in> A. P x} - sum k {x \<in> A. Q x}"
proof -
  have "(\<Sum>x \<in> A. if P x then f x else if Q x then - k x else 0) =
      (\<Sum>x \<in> A. (if P x then f x else 0) - (if Q x then k x else 0))"
    using assms(2) by (intro sum.cong) auto
  also have "\<dots> = (\<Sum>x \<in> A. if P x then f x else 0) - (\<Sum>x \<in> A. if Q x then k x else 0)"
    by (rule sum_subtractf)
  also have "\<dots> = sum f {x \<in> A. P x} - sum k {x \<in> A. Q x}"
    using assms(1) by (simp add: sum.inter_filter)
  finally show ?thesis .
qed

lemma evaluate_board_spec: "evaluate_board g mark = evaluate_spec g mark"
proof -
  let ?opp = "opponent_of mark"
  let ?own = "\<lambda>row col. alignment_spec g mark row col + center_spec g row col +
      adjacency_spec g row col + extension_spec g mark row col"
  let ?h = "\<lambda>row col. if cell_at g row col = mark then ?own row col
      else if cell_at g row col = ?opp then - alignment_spec g ?opp row col else 0"
  have ne: "mark \<noteq> ?opp" by (simp add: opponent_of_def)
  have step: "(\<lambda>col score.
               if cell_at g row col = mark
               then score + count_aligned g row col mark
                      + max 0 (5 - (\<bar>row - board_size g div 2\<bar> + \<bar>col - board_size g div 2\<bar>))
                      + count_adjacent_spaces g row col
                      + potential_extension g row col mark
               else if cell_at g row col = ?opp
               then score - count_aligned g row col ?opp
               else score) = (\<lambda>col score. score + ?h row col)" for row
    by (auto simp: fun_eq_iff count_aligned_spec count_adjacent_spaces_spec
        potential_extension_spec center_spec_def)
  have "evaluate_board g mark =
      fold (\<lambda>row score. fold (\<lambda>col score. score + ?h row col)
        (py_range 0 (board_size g)) score) (py_range 0 (board_size g)) 0"
    unfolding evaluate_board_def Let_def opponent_of_def [symmetric] step ..
  also have "\<dots> = (\<Sum>rc \<in> {0..<board_size g} \<times> {0..<board_size g}. ?h (fst rc) (snd rc))"
    by (simp only: fold_rows_cols sum_cells)
  also have "\<dots> = evaluate_spec g mark"
    unfolding evaluate_spec_def cells_holding_def
    by (rule sum_two_cases) (use ne in auto)
  finally show ?thesis .
qed

text \<open>
  C4. For every board and symbol, \<open>evaluate_board\<close> is the sum over the cells holding the
  symbol of (a) the marks of the symbol in the window of \<open>2 * win_length - 1\<close> cells
  centred on the cell along the four axes, (b) \<open>max 0 (5 - d)\<close> for the Manhattan distance
  \<open>d\<close> to the centre, (c) the empty cells among the eight neighbours and (d) the window
  cells within the bounds that hold the symbol or are empty, minus, over the cells holding
  the opponent's symbol, the opponent's count (a) alone.
\<close>

theorem evaluate_board_is_spec:
  "wf_board g \<Longrightarrow> evaluate_board g mark = evaluate_spec g mark"
  by (rule evaluate_board_spec)

theorem evaluate_board_is_spec_witness:
  "wf_board \<lparr>board_size = 3, win_length = 3, ai_time_limit = 2,
      board = [[''.'', ''.'', ''X''], [''.'', ''X'', ''.''], [''X'', ''.'', ''O'']],
      current_player = None, nodes_expanded = 0\<rparr> \<and>
   evaluate_board \<lparr>board_size = 3, win_length = 3, ai_time_limit = 2,
      board = [[''.'', ''.'', ''X''], [''.'', ''X'', ''.''], [''X'', ''.'', ''O'']],
      current_player = None, nodes_expanded = 0\<rparr> ''X'' = 63 \<and>
   evaluate_spec \<lparr>board_size = 3, win_length = 3, ai_time_limit = 2,
      board = [[''.'', ''.'', ''X''], [''.'', ''X'', ''.''], [''X'', ''.'', ''O'']],
      current_player = None, nodes_expanded = 0\<rparr> ''X'' = 63"
proof -
  let ?g = "\<lparr>board_size = 3, win_length = 3, ai_time_limit = 2,
      board = [[''.'', ''.'', ''X''], [''.'', ''X'', ''.''], [''X'', ''.'', ''O'']],
      current_player = None, nodes_expanded = 0\<rparr>"
  have wf: "wf_board ?g" by (simp add: wf_board_def)
  have v: "evaluate_board ?g ''X'' = 63"
    by (simp add: evaluate_board_def count_aligned_def count_adjacent_spaces_def
        potential_extension_def py_range_def upto.simps cell_at_def)
  from wf v evaluate_board_is_spec [OF wf, of "''X''"] show ?thesis by simp
qed

section \<open>The win detector finds exactly the runs\<close>

lemma check_direction_loop_le:
  "check_direction_loop g dr dc mark n row col count \<le> count + int n"
proof (induction n arbitrary: row col count)
  case 0
  show ?case by simp
next
  case (Suc n)
  from Suc [of "row + dr" "col + dc" "count + 1"] show ?case by simp
qed

lemma check_direction_loop_full:
  "check_direction_loop g dr dc mark n row col count = count + int n \<longleftrightarrow>
     (\<forall>i < n. 0 \<le> row + int i * dr \<and> row + int i * dr < board_size g \<and>
        0 \<le> col + int i * dc \<and> col + int i * dc < board_size g \<and>
        cell_at g (row + int i * dr) (col + int i * dc) = mark)"
proof (induction n arbitrary: row col count)
  case 0
  show ?case by simp
next
  case (Suc n)
  let ?ok = "\<lambda>r c. 0 \<le> r \<and> r < board_size g \<and> 0 \<le> c \<and> c < board_size g \<and> cell_at g r c = mark"
  show ?case
  proof (cases "?ok row col")
    case False
    then have "check_direction_loop g dr dc mark (Suc n) row col count = count" by auto
    moreover from False have "\<not> (\<forall>i < Suc n. ?ok (row + int i * dr) (col + int i * dc))"
      by (auto intro: exI [of _ 0])
    ultimately show ?thesis by simp
  next
    case True
    then have "check_direction_loop g dr dc mark (Suc n) row col count =
        check_direction_loop g dr dc mark n (row + dr) (col + dc) (count + 1)"
      by simp
    then have "check_direction_loop g dr dc mark (Suc n) row col count = count + int (Suc n) \<longleftrightarrow>
        (\<forall>i < n. ?ok (row + dr + int i * dr) (col + dc + int i * dc))"
      using Suc.IH [of "row + dr" "col + dc" "count + 1"] by (simp add: add.assoc)
    also have "\<dots> \<longleftrightarrow> (\<forall>i < n. ?ok (row + int (Suc i) * dr) (col + int (Suc i) * dc))"
      by (simp add: algebra_simps)
    also have "\<dots> \<longleftrightarrow> (\<forall>i < Suc n. ?ok (row + int i * dr) (col + int i * dc))"
    proof
      assume a: "\<forall>i < n. ?ok (row + int (Suc i) * dr) (col + int (Suc i) * dc)"
      show "\<forall>i < Suc n. ?ok (row + int i * dr) (col + int i * dc)"
      proof (intro allI impI)
        fix i assume "i < Suc n"
        show "?ok (row + int i * dr) (col + int i * dc)"
        proof (cases i)
          case 0
          with True show ?thesis by simp
        next
          case (Suc j)
          with \<open>i < Suc n\<close> have "j < n" by simp
          with a Suc show ?thesis by blast
        qed
      qed
    next
      assume "\<forall>i < Suc n. ?ok (row + int i * dr) (col + int i * dc)"
      then show "\<forall>i < n. ?ok (row + int (Suc i) * dr) (col + int (Suc i) * dc)"
        by (metis Suc_less_eq)
    qed
    finally show ?thesis .
  qed
qed

lemma check_direction_iff_run:
  "check_direction g row col dr dc mark \<longleftrightarrow> forward_run g mark (win_length g) row col (dr, dc)"
proof (cases "0 \<le> win_length g")
  case False
  have "check_direction_loop g dr dc mark (nat (win_length g)) row col 0 = 0"
    using False by simp
  with False show ?thesis by (simp add: check_direction_def forward_run_def)
next
  case True
  let ?ok = "\<lambda>r c. 0 \<le> r \<and> r < board_size g \<and> 0 \<le> c \<and> c < board_size g \<and> cell_at g r c = mark"
  have "check_direction g row col dr dc mark \<longleftrightarrow>
      (\<forall>i < nat (win_length g). ?ok (row + int i * dr) (col + int i * dc))"
    using True check_direction_loop_full [of g dr dc mark "nat (win_length g)" row col 0]
    by (simp add: check_direction_def)
  also have "\<dots> \<longleftrightarrow> (\<forall>i \<in> {0..<win_length g}. ?ok (row + i * dr) (col + i * dc))"
  proof
    assume a: "\<forall>i < nat (win_length g). ?ok (row + int i * dr) (col + int i * dc)"
    show "\<forall>i \<in> {0..<win_length g}. ?ok (row + i * dr) (col + i * dc)"
    proof
      fix i assume "i \<in> {0..<win_length g}"
      then have "nat i < nat (win_length g)" "int (nat i) = i" by auto
      with a show "?ok (row + i * dr) (col + i * dc)" by metis
    qed
  next
    assume a: "\<forall>i \<in> {0..<win_length g}. ?ok (row + i * dr) (col + i * dc)"
    show "\<forall>i < nat (win_length g). ?ok (row + int i * dr) (col + int i * dc)"
    proof (intro allI impI)
      fix i assume "i < nat (win_length g)"
      then have "int i \<in> {0..<win_length g}" by auto
      with a show "?ok (row + int i * dr) (col + int i * dc)" by blast
    qed
  qed
  finally show ?thesis using True by (simp add: forward_run_def)
qed

lemma forward_run_reverse:
  assumes "0 < n" and run: "forward_run g mark n row col (dr, dc)"
  shows "forward_run g mark n (row + (n - 1) * dr) (col + (n - 1) * dc) (- dr, - dc)"
proof -
  let ?ok = "\<lambda>r c. 0 \<le> r \<and> r < board_size g \<and> 0 \<le> c \<and> c < board_size g \<and> cell_at g r c = mark"
  have "?ok (row + (n - 1) * dr + i * (- dr)) (col + (n - 1) * dc + i * (- dc))"
    if "i \<in> {0..<n}" for i
  proof -
    from that have "n - 1 - i \<in> {0..<n}" by auto
    with run have "?ok (row + (n - 1 - i) * dr) (col + (n - 1 - i) * dc)"
      unfolding forward_run_def fst_conv snd_conv by blast
    moreover have "row + (n - 1 - i) * dr = row + (n - 1) * dr + i * (- dr)"
      "col + (n - 1 - i) * dc = col + (n - 1) * dc + i * (- dc)"
      by (simp_all add: algebra_simps)
    ultimately show ?thesis by simp
  qed
  with assms show ?thesis unfolding forward_run_def fst_conv snd_conv by simp
qed

lemma forward_run_origin:
  "0 < n \<Longrightarrow> forward_run g mark n row col d \<Longrightarrow>
     row \<in> {0..<board_size g} \<and> col \<in> {0..<board_size g}"
proof -
  assume "0 < n" and run: "forward_run g mark n row col d"
  then have "(0::int) \<in> {0..<n}" by simp
  with run show ?thesis unfolding forward_run_def by fastforce
qed

lemma antidiagonal_run:
  "(\<exists>row \<in> {0..<board_size g}. \<exists>col \<in> {0..<board_size g}. forward_run g mark n row col (1, - 1)) \<longleftrightarrow>
   (\<exists>row \<in> {0..<board_size g}. \<exists>col \<in> {0..<board_size g}. forward_run g mark n row col (- 1, 1))"
proof (cases "0 < n")
  case False
  then show ?thesis by (auto simp: forward_run_def)
next
  case True
  have a: "\<exists>row' \<in> {0..<board_size g}. \<exists>col' \<in> {0..<board_size g}.
      forward_run g mark n row' col' (- dr, - dc)"
    if "forward_run g mark n row col (dr, dc)" for row col dr dc
  proof -
    from True that
    have r: "forward_run g mark n (row + (n - 1) * dr) (col + (n - 1) * dc) (- dr, - dc)"
      by (rule forward_run_reverse)
    from forward_run_origin [OF True r] r show ?thesis by blast
  qed
  show ?thesis
  proof
    assume "\<exists>row \<in> {0..<board_size g}. \<exists>col \<in> {0..<board_size g}. forward_run g mark n row col (1, - 1)"
    then obtain row col where "forward_run g mark n row col (1, - 1)" by blast
    from a [OF this] show "\<exists>row \<in> {0..<board_size g}. \<exists>col \<in> {0..<board_size g}.
        forward_run g mark n row col (- 1, 1)" by simp
  next
    assume "\<exists>row \<in> {0..<board_size g}. \<exists>col \<in> {0..<board_size g}. forward_run g mark n row col (- 1, 1)"
    then obtain row col where "forward_run g mark n row col (- 1, 1)" by blast
    from a [OF this] show "\<exists>row \<in> {0..<board_size g}. \<exists>col \<in> {0..<board_size g}.
        forward_run g mark n row col (1, - 1)" by simp
  qed
qed

lemma check_win_code_directions:
  "check_win g p \<longleftrightarrow>
     (\<exists>row \<in> {0..<board_size g}. \<exists>col \<in> {0..<board_size g}.
        \<exists>d \<in> {(1, 0), (0, 1), (1, 1), (1, - 1)}.
          forward_run g (symbol p) (win_length g) row col d)"
  by (simp add: check_win_def list_ex_iff check_direction_iff_run)

lemma check_win_iff_spec: "check_win g p \<longleftrightarrow> has_win_spec g (symbol p)"
proof -
  let ?E = "\<lambda>d. \<exists>row \<in> {0..<board_size g}. \<exists>col \<in> {0..<board_size g}.
      forward_run g (symbol p) (win_length g) row col d"
  have "check_win g p \<longleftrightarrow> ?E (1, 0) \<or> ?E (0, 1) \<or> ?E (1, 1) \<or> ?E (1, - 1)"
    unfolding check_win_code_directions by blast
  also have "\<dots> \<longleftrightarrow> ?E (0, 1) \<or> ?E (1, 0) \<or> ?E (1, 1) \<or> ?E (- 1, 1)"
    using antidiagonal_run [of g "symbol p" "win_length g"] by blast
  also have "\<dots> \<longleftrightarrow> has_win_spec g (symbol p)"
    unfolding has_win_spec_def spec_directions_def by (simp add: bex_disj_distrib)
  finally show ?thesis .
qed
text \<open>
  C5. \<open>check_win\<close> holds exactly when some cell of the board starts a forward run of
  \<open>win_length\<close> cells of the symbol to the right, down, down-right or up-right. So it
  holds whenever such a run of \<open>win_length\<close> cells exists, whichever cell is scanned first,
  and it fails when every run along these directions has at most \<open>win_length - 1\<close> cells.
\<close>

theorem check_win_iff_run:
  "wf_board g \<Longrightarrow>
     (check_win g p \<longleftrightarrow> has_win_spec g (symbol p)) \<and>
     (\<forall>row \<in> {0..<board_size g}. \<forall>col \<in> {0..<board_size g}. \<forall>d \<in> set spec_directions.
        forward_run g (symbol p) (win_length g) row col d \<longrightarrow> check_win g p) \<and>
     ((\<forall>row \<in> {0..<board_size g}. \<forall>col \<in> {0..<board_size g}. \<forall>d \<in> set spec_directions.
         \<forall>n. forward_run g (symbol p) n row col d \<longrightarrow> n \<le> win_length g - 1) \<longrightarrow>
        \<not> check_win g p)"
proof -
  have a: "check_win g p \<longleftrightarrow> has_win_spec g (symbol p)" by (rule check_win_iff_spec)
  have b: "\<forall>row \<in> {0..<board_size g}. \<forall>col \<in> {0..<board_size g}. \<forall>d \<in> set spec_directions.
        forward_run g (symbol p) (win_length g) row col d \<longrightarrow> check_win g p"
    unfolding a has_win_spec_def by blast
  have c: "\<not> check_win g p"
    if h: "\<forall>row \<in> {0..<board_size g}. \<forall>col \<in> {0..<board_size g}. \<forall>d \<in> set spec_directions.
         \<forall>n. forward_run g (symbol p) n row col d \<longrightarrow> n \<le> win_length g - 1"
  proof
    assume "check_win g p"
    then obtain row col d where "row \<in> {0..<board_size g}" "col \<in> {0..<board_size g}"
      "d \<in> set spec_directions" "forward_run g (symbol p) (win_length g) row col d"
      unfolding a has_win_spec_def by blast
    with h have "win_length g \<le> win_length g - 1" by blast
    then show False by simp
  qed
  from a b c show ?thesis by blast
qed

theorem check_win_iff_run_witness:
  "wf_board \<lparr>board_size = 3, win_length = 3, ai_time_limit = 2,
      board = [[''.'', ''.'', ''X''], [''.'', ''X'', ''.''], [''X'', ''.'', ''O'']],
      current_player = None, nodes_expanded = 0\<rparr> \<and>
   check_win \<lparr>board_size = 3, win_length = 3, ai_time_limit = 2,
      board = [[''.'', ''.'', ''X''], [''.'', ''X'', ''.''], [''X'', ''.'', ''O'']],
      current_player = None, nodes_expanded = 0\<rparr> \<lparr>symbol = ''X'', ai_type = None\<rparr> \<and>
   has_win_spec \<lparr>board_size = 3, win_length = 3, ai_time_limit = 2,
      board = [[''.'', ''.'', ''X''], [''.'', ''X'', ''.''], [''X'', ''.'', ''O'']],
      current_player = None, nodes_expanded = 0\<rparr> ''X'' \<and>
   \<not> check_win \<lparr>board_size = 3, win_length = 3, ai_time_limit = 2,
      board = [[''.'', ''.'', ''X''], [''.'', ''X'', ''.''], [''X'', ''.'', ''O'']],
      current_player = None, nodes_expanded = 0\<rparr> \<lparr>symbol = ''O'', ai_type = None\<rparr> \<and>
   \<not> has_win_spec \<lparr>board_size = 3, win_length = 3, ai_time_limit = 2,
      board = [[''.'', ''.'', ''X''], [''.'', ''X'', ''.''], [''X'', ''.'', ''O'']],
      current_player = None, nodes_expanded = 0\<rparr> ''O''"
proof -
  let ?g = "\<lparr>board_size = 3, win_length = 3, ai_time_limit = 2,
      board = [[''.'', ''.'', ''X''], [''.'', ''X'', ''.''], [''X'', ''.'', ''O'']],
      current_player = None, nodes_expanded = 0\<rparr>"
  have wf: "wf_board ?g" by (simp add: wf_board_def)
  have x: "check_win ?g \<lparr>symbol = ''X'', ai_type = None\<rparr>"
    by (simp add: check_win_def check_direction_def py_range_def upto.simps cell_at_def
        eval_nat_numeral)
  have o: "\<not> check_win ?g \<lparr>symbol = ''O'', ai_type = None\<rparr>"
    by (simp add: check_win_def check_direction_def py_range_def upto.simps cell_at_def
        eval_nat_numeral)
  from wf x o check_win_iff_run [OF wf, of "\<lparr>symbol = ''X'', ai_type = None\<rparr>"]
    check_win_iff_run [OF wf, of "\<lparr>symbol = ''O'', ai_type = None\<rparr>"]
  show ?thesis by simp
qed

section \<open>Loops over the cells\<close>

lemma fold_product:
  "fold (\<lambda>r s. fold (\<lambda>c s. h (r, c) s) cs s) rs s0 = fold h (List.product rs cs) s0"
  by (induction rs arbitrary: s0) (simp_all add: fold_map comp_def)

lemma fold_keep_game:
  "(\<And>x s. h x (g, s) = (g, p x s)) \<Longrightarrow> fold h xs (g, s) = (g, fold p xs s)"
  by (induction xs arbitrary: s) simp_all

lemma sorted_row_major:
  "sorted_wrt (<) rs \<Longrightarrow> sorted_wrt (<) cs \<Longrightarrow> sorted_wrt row_major_less (List.product rs cs)"
proof (induction rs)
  case Nil
  show ?case by simp
next
  case (Cons r rs)
  have "sorted_wrt row_major_less (map (Pair r) cs)"
    using Cons.prems(2) by (simp add: sorted_wrt_map row_major_less_def)
  moreover have "sorted_wrt row_major_less (List.product rs cs)"
    using Cons by simp
  moreover have "\<forall>x \<in> set (map (Pair r) cs). \<forall>y \<in> set (List.product rs cs). row_major_less x y"
    using Cons.prems(1) by (auto simp: row_major_less_def)
  ultimately show ?case by (simp add: sorted_wrt_append)
qed

lemma sorted_row_major_cells: "sorted_wrt row_major_less (row_major_cells g)"
  unfolding row_major_cells_def by (rule sorted_row_major) (simp_all add: py_range_def)

lemma set_row_major_cells:
  "set (row_major_cells g) = {0..<board_size g} \<times> {0..<board_size g}"
  by (simp add: row_major_cells_def)

lemma row_major_less_asym: "row_major_less a b \<Longrightarrow> \<not> row_major_less b a"
  by (auto simp: row_major_less_def)

text \<open>What the selection returns: the first of the candidates with the best key.\<close>

lemma keep_best_fold:
  assumes irrefl: "\<And>a. \<not> better a a"
    and trans: "\<And>a b c. better a b \<Longrightarrow> better b c \<Longrightarrow> better a c"
    and negtrans: "\<And>a b c. \<not> better a b \<Longrightarrow> \<not> better b c \<Longrightarrow> \<not> better a c"
    and asym: "\<And>x y. lt x y \<Longrightarrow> \<not> lt y x"
    and sorted: "sorted_wrt lt xs"
    and init: "\<And>x. x \<in> set xs \<Longrightarrow> P x \<Longrightarrow> better (key x) b0"
  shows "(case fold (keep_best better P key) xs (None, b0) of
            (None, b) \<Rightarrow> b = b0 \<and> (\<forall>x \<in> set xs. \<not> P x)
          | (Some m, b) \<Rightarrow> b = key m \<and> m \<in> set xs \<and> P m \<and>
              (\<forall>x \<in> set xs. P x \<longrightarrow> \<not> better (key x) (key m)) \<and>
              (\<forall>x \<in> set xs. P x \<and> lt x m \<longrightarrow> better (key m) (key x)))"
  using sorted init
proof (induction xs rule: rev_induct)
  case Nil
  show ?case by simp
next
  case (snoc x xs)
  from snoc.prems(1) have sorted': "sorted_wrt lt xs" and before: "\<forall>y \<in> set xs. lt y x"
    by (simp_all add: sorted_wrt_append)
  have init': "\<And>y. y \<in> set xs \<Longrightarrow> P y \<Longrightarrow> better (key y) b0"
    using snoc.prems(2) by simp
  note IH = snoc.IH [OF sorted' init']
  obtain bm b where st: "fold (keep_best better P key) xs (None, b0) = (bm, b)"
    by (cases "fold (keep_best better P key) xs (None, b0)")
  have step: "fold (keep_best better P key) (xs @ [x]) (None, b0) =
      (if P x \<and> better (key x) b then (Some x, key x) else (bm, b))"
    by (simp add: st keep_best_def)
  have nlt: "\<not> lt x x" using asym by blast
  show ?case
  proof (cases bm)
    case None
    with IH st have b: "b = b0" and nop: "\<forall>y \<in> set xs. \<not> P y" by simp_all
    show ?thesis
    proof (cases "P x")
      case True
      with snoc.prems(2) b have "better (key x) b" by simp
      with True step have "fold (keep_best better P key) (xs @ [x]) (None, b0) = (Some x, key x)"
        by simp
      with True nop irrefl nlt show ?thesis by auto
    next
      case False
      with step None have "fold (keep_best better P key) (xs @ [x]) (None, b0) = (None, b)"
        by simp
      with False nop b show ?thesis by simp
    qed
  next
    case (Some m)
    with IH st have b: "b = key m" and m: "m \<in> set xs" "P m"
      and best: "\<forall>y \<in> set xs. P y \<longrightarrow> \<not> better (key y) (key m)"
      and first: "\<forall>y \<in> set xs. P y \<and> lt y m \<longrightarrow> better (key m) (key y)"
      by simp_all
    show ?thesis
    proof (cases "P x \<and> better (key x) b")
      case True
      with step have res: "fold (keep_best better P key) (xs @ [x]) (None, b0) = (Some x, key x)"
        by simp
      have "\<not> better (key y) (key x)" if "y \<in> set xs" "P y" for y
      proof
        assume "better (key y) (key x)"
        with True b have "better (key y) (key m)" using trans by blast
        with best that show False by blast
      qed
      moreover have "better (key x) (key y)" if "y \<in> set xs" "P y" for y
      proof (rule ccontr)
        assume "\<not> better (key x) (key y)"
        moreover from best that have "\<not> better (key y) (key m)" by blast
        ultimately have "\<not> better (key x) (key m)" by (rule negtrans)
        with True b show False by simp
      qed
      ultimately show ?thesis using res True irrefl nlt by auto
    next
      case False
      with step Some have res: "fold (keep_best better P key) (xs @ [x]) (None, b0) = (Some m, b)"
        by auto
      from before m have "lt m x" by blast
      then have "\<not> lt x m" by (rule asym)
      with res b m best first False show ?thesis by auto
    qed
  qed
qed

section \<open>Greedy and Worst\<close>

lemma retract_after_place:
  "is_valid_move g row col \<Longrightarrow> set_cell (set_cell g row col v) row col ''.'' = g"
  by (simp add: is_valid_move_def set_cell_same_value)

lemma retract_valid: "is_valid_move g row col \<Longrightarrow> set_cell g row col ''.'' = g"
  by (simp add: is_valid_move_def set_cell_same_value)

lemma valid_in_cells: "is_valid_move g r c \<Longrightarrow> (r, c) \<in> set (row_major_cells g)"
  by (simp add: set_row_major_cells is_valid_move_def)

lemma greedy_ai_selection:
  "greedy_ai g mark =
     (fst (fold (keep_best (>) (\<lambda>rc. is_valid_move g (fst rc) (snd rc))
                  (\<lambda>rc. Fin (evaluate_board (set_cell g (fst rc) (snd rc) mark) mark)))
             (row_major_cells g) (None, NegInf)), g)"
proof -
  let ?h = "\<lambda>rc (g, best_move, best_score).
      if is_valid_move g (fst rc) (snd rc)
      then let g1 = set_cell g (fst rc) (snd rc) mark;
               score = Fin (evaluate_board g1 mark);
               g2 = set_cell g1 (fst rc) (snd rc) ''.''
           in if score > best_score then (g2, Some (fst rc, snd rc), score)
              else (g2, best_move, best_score)
      else (g, best_move, best_score)"
  let ?p = "keep_best (>) (\<lambda>rc. is_valid_move g (fst rc) (snd rc))
      (\<lambda>rc. Fin (evaluate_board (set_cell g (fst rc) (snd rc) mark) mark))"
  have loops: "greedy_ai g mark =
      (let (g', best_move, best_score) = fold ?h (row_major_cells g) (g, None, NegInf)
       in (best_move, g'))"
    unfolding greedy_ai_def row_major_cells_def fold_product [of ?h, symmetric] by (simp cong: if_cong)
  have "?h x (g, s) = (g, ?p x s)" for x s
    by (cases s) (simp add: keep_best_def Let_def retract_valid)
  then have "fold ?h (row_major_cells g) (g, None, NegInf) =
      (g, fold ?p (row_major_cells g) (None, NegInf))"
    by (rule fold_keep_game)
  with loops show ?thesis by (simp add: case_prod_unfold)
qed

lemma worst_ai_selection:
  "worst_ai g mark =
     (fst (fold (keep_best (<) (\<lambda>rc. is_valid_move g (fst rc) (snd rc))
                  (\<lambda>rc. Fin (evaluate_board (set_cell g (fst rc) (snd rc) mark) mark)))
             (row_major_cells g) (None, PosInf)), g)"
proof -
  let ?h = "\<lambda>rc (g, worst_move, worst_score).
      if is_valid_move g (fst rc) (snd rc)
      then let g1 = set_cell g (fst rc) (snd rc) mark;
               score = Fin (evaluate_board g1 mark);
               g2 = set_cell g1 (fst rc) (snd rc) ''.''
           in if score < worst_score then (g2, Some (fst rc, snd rc), score)
              else (g2, worst_move, worst_score)
      else (g, worst_move, worst_score)"
  let ?p = "keep_best (<) (\<lambda>rc. is_valid_move g (fst rc) (snd rc))
      (\<lambda>rc. Fin (evaluate_board (set_cell g (fst rc) (snd rc) mark) mark))"
  have loops: "worst_ai g mark =
      (let (g', worst_move, worst_score) = fold ?h (row_major_cells g) (g, None, PosInf)
       in (worst_move, g'))"
    unfolding worst_ai_def row_major_cells_def fold_product [of ?h, symmetric] by (simp cong: if_cong)
  have "?h x (g, s) = (g, ?p x s)" for x s
    by (cases s) (simp add: keep_best_def Let_def retract_valid)
  then have "fold ?h (row_major_cells g) (g, None, PosInf) =
      (g, fold ?p (row_major_cells g) (None, PosInf))"
    by (rule fold_keep_game)
  with loops show ?thesis by (simp add: case_prod_unfold)
qed

lemma Fin_less [simp]: "Fin a < Fin b \<longleftrightarrow> a < b"
  by (auto simp: less_score_def)

lemma NegInf_less_Fin [simp]: "NegInf < Fin a"
  by (simp add: less_score_def)

lemma Fin_less_PosInf [simp]: "Fin a < PosInf"
  by (simp add: less_score_def)

text \<open>The move of Greedy: the first valid cell in scan order with the greatest score.\<close>

lemma greedy_ai_first_max:
  assumes valid: "is_valid_move g r0 c0"
  shows "\<exists>row col. fst (greedy_ai g mark) = Some (row, col) \<and> is_valid_move g row col \<and>
     (\<forall>r c. is_valid_move g r c \<longrightarrow>
        evaluate_board (set_cell g r c mark) mark \<le> evaluate_board (set_cell g row col mark) mark) \<and>
     (\<forall>r c. is_valid_move g r c \<and> row_major_less (r, c) (row, col) \<longrightarrow>
        evaluate_board (set_cell g r c mark) mark < evaluate_board (set_cell g row col mark) mark)"
proof -
  let ?P = "\<lambda>rc. is_valid_move g (fst rc) (snd rc)"
  let ?key = "\<lambda>rc. Fin (evaluate_board (set_cell g (fst rc) (snd rc) mark) mark)"
  let ?res = "fold (keep_best (>) ?P ?key) (row_major_cells g) (None, NegInf)"
  have char: "(case ?res of
            (None, b) \<Rightarrow> b = NegInf \<and> (\<forall>x \<in> set (row_major_cells g). \<not> ?P x)
          | (Some m, b) \<Rightarrow> b = ?key m \<and> m \<in> set (row_major_cells g) \<and> ?P m \<and>
              (\<forall>x \<in> set (row_major_cells g). ?P x \<longrightarrow> \<not> ?key x > ?key m) \<and>
              (\<forall>x \<in> set (row_major_cells g). ?P x \<and> row_major_less x m \<longrightarrow> ?key m > ?key x))"
    by (rule keep_best_fold [where lt = row_major_less])
      (auto simp: sorted_row_major_cells dest: row_major_less_asym)
  obtain bm b where res: "?res = (bm, b)" by (cases ?res)
  from valid have in_cells: "(r0, c0) \<in> set (row_major_cells g)" by (rule valid_in_cells)
  show ?thesis
  proof (cases bm)
    case None
    with char res in_cells valid show ?thesis by fastforce
  next
    case (Some m)
    with char res have m: "?P m"
      and best: "\<forall>x \<in> set (row_major_cells g). ?P x \<longrightarrow> \<not> ?key x > ?key m"
      and first: "\<forall>x \<in> set (row_major_cells g). ?P x \<and> row_major_less x m \<longrightarrow> ?key m > ?key x"
      by simp_all
    have "fst (greedy_ai g mark) = Some (fst m, snd m)"
      by (simp add: greedy_ai_selection res Some)
    moreover have "evaluate_board (set_cell g r c mark) mark
        \<le> evaluate_board (set_cell g (fst m) (snd m) mark) mark" if "is_valid_move g r c" for r c
      using best valid_in_cells [OF that] that by fastforce
    moreover have "evaluate_board (set_cell g r c mark) mark
        < evaluate_board (set_cell g (fst m) (snd m) mark) mark"
      if "is_valid_move g r c" "row_major_less (r, c) (fst m, snd m)" for r c
      using first valid_in_cells [OF that(1)] that by fastforce
    ultimately show ?thesis using m by blast
  qed
qed

text \<open>The move of Worst: the first valid cell in scan order with the least score.\<close>

lemma worst_ai_first_min:
  assumes valid: "is_valid_move g r0 c0"
  shows "\<exists>row col. fst (worst_ai g mark) = Some (row, col) \<and> is_valid_move g row col \<and>
     (\<forall>r c. is_valid_move g r c \<longrightarrow>
        evaluate_board (set_cell g row col mark) mark \<le> evaluate_board (set_cell g r c mark) mark) \<and>
     (\<forall>r c. is_valid_move g r c \<and> row_major_less (r, c) (row, col) \<longrightarrow>
        evaluate_board (set_cell g row col mark) mark < evaluate_board (set_cell g r c mark) mark)"
proof -
  let ?P = "\<lambda>rc. is_valid_move g (fst rc) (snd rc)"
  let ?key = "\<lambda>rc. Fin (evaluate_board (set_cell g (fst rc) (snd rc) mark) mark)"
  let ?res = "fold (keep_best (<) ?P ?key) (row_major_cells g) (None, PosInf)"
  have char: "(case ?res of
            (None, b) \<Rightarrow> b = PosInf \<and> (\<forall>x \<in> set (row_major_cells g). \<not> ?P x)
          | (Some m, b) \<Rightarrow> b = ?key m \<and> m \<in> set (row_major_cells g) \<and> ?P m \<and>
              (\<forall>x \<in> set (row_major_cells g). ?P x \<longrightarrow> \<not> ?key x < ?key m) \<and>
              (\<forall>x \<in> set (row_major_cells g). ?P x \<and> row_major_less x m \<longrightarrow> ?key m < ?key x))"
    by (rule keep_best_fold [where lt = row_major_less])
      (auto simp: sorted_row_major_cells dest: row_major_less_asym)
  obtain bm b where res: "?res = (bm, b)" by (cases ?res)
  from valid have in_cells: "(r0, c0) \<in> set (row_major_cells g)" by (rule valid_in_cells)
  show ?thesis
  proof (cases bm)
    case None
    with char res in_cells valid show ?thesis by fastforce
  next
    case (Some m)
    with char res have m: "?P m"
      and best: "\<forall>x \<in> set (row_major_cells g). ?P x \<longrightarrow> \<not> ?key x < ?key m"
      and first: "\<forall>x \<in> set (row_major_cells g). ?P x \<and> row_major_less x m \<longrightarrow> ?key m < ?key x"
      by simp_all
    have "fst (worst_ai g mark) = Some (fst m, snd m)"
      by (simp add: worst_ai_selection res Some)
    moreover have "evaluate_board (set_cell g (fst m) (snd m) mark) mark
        \<le> evaluate_board (set_cell g r c mark) mark" if "is_valid_move g r c" for r c
      using best valid_in_cells [OF that] that by fastforce
    moreover have "evaluate_board (set_cell g (fst m) (snd m) mark) mark
        < evaluate_board (set_cell g r c mark) mark"
      if "is_valid_move g r c" "row_major_less (r, c) (fst m, snd m)" for r c
      using first valid_in_cells [OF that(1)] that by fastforce
    ultimately show ?thesis using m by blast
  qed
qed

section \<open>Greedy on the empty 15 by 15 board\<close>

lemma init_fields [simp]:
  "board_size (init_gomoku bs wl tlim) = bs"
  "win_length (init_gomoku bs wl tlim) = wl"
  "ai_time_limit (init_gomoku bs wl tlim) = tlim"
  by (simp_all add: init_gomoku_def)

lemma cell_at_init:
  "in_bounds (init_gomoku bs wl tlim) r c \<Longrightarrow> cell_at (init_gomoku bs wl tlim) r c = ''.''"
  by (simp add: in_bounds_def cell_at_def init_gomoku_def)

lemma is_valid_move_init:
  "is_valid_move (init_gomoku bs wl tlim) r c \<longleftrightarrow> in_bounds (init_gomoku bs wl tlim) r c"
  using cell_at_init [of bs wl tlim r c] by (auto simp: is_valid_move_def in_bounds_def)

lemma in_bounds_set_cell [simp]: "in_bounds (set_cell g row col v) r c = in_bounds g r c"
  by (simp add: in_bounds_def)

lemma window_set_cell [simp]: "window (set_cell g row col v) = window g"
  by (simp add: window_def)

text \<open>The board with a single mark \<open>v\<close>, at \<open>(row, col)\<close>.\<close>

lemma cell_at_single:
  assumes "in_bounds (init_gomoku bs wl tlim) row col" "in_bounds (init_gomoku bs wl tlim) r c"
  shows "cell_at (set_cell (init_gomoku bs wl tlim) row col v) r c =
      (if (r, c) = (row, col) then v else ''.'')"
proof (cases "(r, c) = (row, col)")
  case True
  with assms(1) show ?thesis
    using cell_at_set_cell_same [OF wf_board_init, of row bs wl tlim col v]
    by (simp add: in_bounds_def)
next
  case False
  with assms have "cell_at (set_cell (init_gomoku bs wl tlim) row col v) r c =
      cell_at (init_gomoku bs wl tlim) r c"
    by (intro cell_at_set_cell_other) (simp_all add: in_bounds_def)
  moreover from assms(2) have "cell_at (init_gomoku bs wl tlim) r c = ''.''"
    by (rule cell_at_init)
  ultimately show ?thesis using False by auto
qed

lemma card_axes: "card axes = 4"
  by (simp add: axes_def)

lemma finite_neighbours: "finite neighbours"
  by (simp add: neighbours_def)

lemma card_neighbours: "card neighbours = 8"
proof -
  have "distinct [(1, 0), (0, 1), (1, 1), (1, - 1), (- 1, - 1), (- 1, 1), (- 1, 0), (0, - 1 :: int) :: int \<times> int]"
    by simp
  from distinct_card [OF this] show ?thesis unfolding neighbours_list by simp
qed

lemma adjacency_spec_le: "adjacency_spec g row col \<le> 8"
proof -
  have "card {d \<in> neighbours. in_bounds g (row + fst d) (col + snd d) \<and>
        cell_at g (row + fst d) (col + snd d) = ''.''} \<le> card neighbours"
    by (rule card_mono [OF finite_neighbours]) auto
  then show ?thesis by (simp add: adjacency_spec_def card_neighbours)
qed

lemma extension_spec_le: "extension_spec g mark row col \<le> 4 * int (card (window g))"
proof -
  have "int (card {i \<in> window g.
        in_bounds g (row + fst d * i) (col + snd d * i) \<and>
        (cell_at g (row + fst d * i) (col + snd d * i) = mark \<or>
         cell_at g (row + fst d * i) (col + snd d * i) = ''.'')}) \<le> int (card (window g))"
    for d
  proof -
    have "finite (window g)" by (simp add: window_def)
    then have "card {i \<in> window g.
        in_bounds g (row + fst d * i) (col + snd d * i) \<and>
        (cell_at g (row + fst d * i) (col + snd d * i) = mark \<or>
         cell_at g (row + fst d * i) (col + snd d * i) = ''.'')} \<le> card (window g)"
      by (rule card_mono) blast
    then show ?thesis by simp
  qed
  then have "extension_spec g mark row col \<le> int (card axes) * int (card (window g))"
    unfolding extension_spec_def by (intro sum_bounded_above) simp
  then show ?thesis by (simp add: card_axes)
qed

lemma axis_offset_zero: "d \<in> axes \<Longrightarrow> fst d * i = 0 \<Longrightarrow> snd d * i = 0 \<Longrightarrow> i = (0::int)"
proof -
  assume "d \<in> axes"
  then have "fst d = 1 \<or> snd d = 1" by (auto simp: axes_def)
  moreover assume "fst d * i = 0" "snd d * i = 0"
  ultimately show "i = 0" by auto
qed

lemma alignment_single:
  assumes inb: "in_bounds (init_gomoku bs wl tlim) row col" and wl: "1 \<le> wl" and v: "v \<noteq> ''.''"
  shows "alignment_spec (set_cell (init_gomoku bs wl tlim) row col v) v row col = 4"
proof -
  let ?g = "set_cell (init_gomoku bs wl tlim) row col v"
  have "{i \<in> window ?g. in_bounds ?g (row + fst d * i) (col + snd d * i) \<and>
        cell_at ?g (row + fst d * i) (col + snd d * i) = v} = {0}" if d: "d \<in> axes" for d
  proof
    show "{i \<in> window ?g. in_bounds ?g (row + fst d * i) (col + snd d * i) \<and>
        cell_at ?g (row + fst d * i) (col + snd d * i) = v} \<subseteq> {0}"
    proof
      fix i
      assume "i \<in> {i \<in> window ?g. in_bounds ?g (row + fst d * i) (col + snd d * i) \<and>
        cell_at ?g (row + fst d * i) (col + snd d * i) = v}"
      then have b: "in_bounds (init_gomoku bs wl tlim) (row + fst d * i) (col + snd d * i)"
        and c: "cell_at ?g (row + fst d * i) (col + snd d * i) = v"
        by simp_all
      from c v cell_at_single [OF inb b, of v]
      have "fst d * i = 0 \<and> snd d * i = 0" by (simp split: if_splits)
      with d have "i = 0" using axis_offset_zero [of d i] by blast
      then show "i \<in> {0}" by simp
    qed
    show "{0} \<subseteq> {i \<in> window ?g. in_bounds ?g (row + fst d * i) (col + snd d * i) \<and>
        cell_at ?g (row + fst d * i) (col + snd d * i) = v}"
      using inb wl cell_at_single [OF inb inb, of v] by (simp add: window_def)
  qed
  then have "alignment_spec ?g v row col = (\<Sum>d \<in> axes. 1)"
    unfolding alignment_spec_def by (intro sum.cong) simp_all
  then show ?thesis by (simp add: card_axes)
qed

lemma cells_holding_single:
  assumes inb: "in_bounds (init_gomoku bs wl tlim) row col" and v: "v \<noteq> ''.''"
  shows "cells_holding (set_cell (init_gomoku bs wl tlim) row col v) m =
      (if m = v then {(row, col)} else if m = ''.''
       then {0..<bs} \<times> {0..<bs} - {(row, col)} else {})"
proof -
  have "cell_at (set_cell (init_gomoku bs wl tlim) row col v) r c =
      (if (r, c) = (row, col) then v else ''.'')" if "r \<in> {0..<bs}" "c \<in> {0..<bs}" for r c
    using that by (intro cell_at_single [OF inb]) (simp add: in_bounds_def)
  with inb v show ?thesis
    unfolding cells_holding_def by (auto simp: in_bounds_def split: if_splits)
qed

lemma single_score:
  assumes inb: "in_bounds (init_gomoku bs wl tlim) row col" and wl: "1 \<le> wl"
  shows "evaluate_board (set_cell (init_gomoku bs wl tlim) row col ''X'') ''X'' =
      4 + center_spec (init_gomoku bs wl tlim) row col
        + adjacency_spec (set_cell (init_gomoku bs wl tlim) row col ''X'') row col
        + extension_spec (set_cell (init_gomoku bs wl tlim) row col ''X'') ''X'' row col"
proof -
  have "center_spec (set_cell (init_gomoku bs wl tlim) row col ''X'') row col =
      center_spec (init_gomoku bs wl tlim) row col"
    by (simp add: center_spec_def)
  then show ?thesis
    unfolding evaluate_board_spec evaluate_spec_def
    by (simp add: cells_holding_single [OF inb] opponent_of_def alignment_single [OF inb wl])
qed

lemma center_adjacency_15:
  "adjacency_spec (set_cell (init_gomoku 15 5 tlim) 7 7 ''X'') 7 7 = 8"
proof -
  let ?e = "init_gomoku 15 5 tlim"
  let ?g = "set_cell ?e 7 7 ''X''"
  have c: "in_bounds ?e 7 7" by (simp add: in_bounds_def)
  have "in_bounds ?g (7 + fst d) (7 + snd d) \<and> cell_at ?g (7 + fst d) (7 + snd d) = ''.''"
    if d: "d \<in> neighbours" for d
  proof -
    from d have r: "fst d \<in> {- 1, 0, 1}" "snd d \<in> {- 1, 0, 1}" and nz: "d \<noteq> (0, 0)"
      by (auto simp: neighbours_def)
    from r have b: "in_bounds ?e (7 + fst d) (7 + snd d)" by (auto simp: in_bounds_def)
    from nz have "(7 + fst d, 7 + snd d) \<noteq> (7, 7)" by (cases d) auto
    with cell_at_single [OF c b, of "''X''"] b show ?thesis by simp
  qed
  then have "{d \<in> neighbours. in_bounds ?g (7 + fst d) (7 + snd d) \<and>
      cell_at ?g (7 + fst d) (7 + snd d) = ''.''} = neighbours"
    by blast
  then show ?thesis by (simp add: adjacency_spec_def card_neighbours)
qed

lemma center_extension_15:
  "extension_spec (set_cell (init_gomoku 15 5 tlim) 7 7 ''X'') ''X'' 7 7 = 36"
proof -
  let ?e = "init_gomoku 15 5 tlim"
  let ?g = "set_cell ?e 7 7 ''X''"
  have c: "in_bounds ?e 7 7" by (simp add: in_bounds_def)
  have w: "window ?g = {- 4..4}" by (simp add: window_def)
  have "in_bounds ?g (7 + fst d * i) (7 + snd d * i) \<and>
      (cell_at ?g (7 + fst d * i) (7 + snd d * i) = ''X'' \<or>
       cell_at ?g (7 + fst d * i) (7 + snd d * i) = ''.'')"
    if d: "d \<in> axes" and i: "i \<in> {- 4..4}" for d i
  proof -
    from d i have b: "in_bounds ?e (7 + fst d * i) (7 + snd d * i)"
      by (auto simp: in_bounds_def axes_def)
    with cell_at_single [OF c b, of "''X''"] show ?thesis by (simp split: if_splits)
  qed
  then have "{i \<in> window ?g. in_bounds ?g (7 + fst d * i) (7 + snd d * i) \<and>
      (cell_at ?g (7 + fst d * i) (7 + snd d * i) = ''X'' \<or>
       cell_at ?g (7 + fst d * i) (7 + snd d * i) = ''.'')} = {- 4..4}" if "d \<in> axes" for d
    unfolding w using that by blast
  then have "extension_spec ?g ''X'' 7 7 = (\<Sum>d \<in> axes. 9)"
    unfolding extension_spec_def by (intro sum.cong) simp_all
  then show ?thesis by (simp add: card_axes)
qed

lemma center_score_15:
  "evaluate_board (set_cell (init_gomoku 15 5 tlim) 7 7 ''X'') ''X'' = 53"
proof -
  have "in_bounds (init_gomoku 15 5 tlim) 7 7" by (simp add: in_bounds_def)
  then show ?thesis
    by (simp add: single_score center_adjacency_15 center_extension_15 center_spec_def)
qed

lemma other_score_15:
  assumes inb: "in_bounds (init_gomoku 15 5 tlim) row col" and ne: "(row, col) \<noteq> (7, 7)"
  shows "evaluate_board (set_cell (init_gomoku 15 5 tlim) row col ''X'') ''X'' \<le> 52"
proof -
  let ?g = "set_cell (init_gomoku 15 5 tlim) row col ''X''"
  from ne have "1 \<le> \<bar>row - 7\<bar> + \<bar>col - 7\<bar>" by auto
  then have "center_spec (init_gomoku 15 5 tlim) row col \<le> 4"
    by (simp add: center_spec_def)
  moreover have "adjacency_spec ?g row col \<le> 8" by (rule adjacency_spec_le)
  moreover have "card (window ?g) = 9" by (simp add: window_def)
  with extension_spec_le [of ?g "''X''" row col]
  have "extension_spec ?g ''X'' row col \<le> 36" by simp
  ultimately show ?thesis using single_score [OF inb, of ] by simp
qed

lemma greedy_center_15: "fst (greedy_ai (init_gomoku 15 5 tlim) ''X'') = Some (7, 7)"
proof -
  let ?e = "init_gomoku 15 5 tlim"
  have c: "is_valid_move ?e 7 7" by (simp add: is_valid_move_init in_bounds_def)
  from greedy_ai_first_max [OF c, of "''X''"] obtain row col
    where res: "fst (greedy_ai ?e ''X'') = Some (row, col)"
      and valid: "is_valid_move ?e row col"
      and best: "\<forall>r c. is_valid_move ?e r c \<longrightarrow>
        evaluate_board (set_cell ?e r c ''X'') ''X'' \<le> evaluate_board (set_cell ?e row col ''X'') ''X''"
    by blast
  from best c have "evaluate_board (set_cell ?e 7 7 ''X'') ''X''
      \<le> evaluate_board (set_cell ?e row col ''X'') ''X''"
    by blast
  then have "53 \<le> evaluate_board (set_cell ?e row col ''X'') ''X''"
    by (simp only: center_score_15)
  moreover have "evaluate_board (set_cell ?e row col ''X'') ''X'' \<le> 52" if "(row, col) \<noteq> (7, 7)"
    using valid that by (intro other_score_15) (simp_all add: is_valid_move_init)
  ultimately have "(row, col) = (7, 7)" by fastforce
  with res show ?thesis by simp
qed

text \<open>
  C7. On a board with a valid move, Greedy returns a valid cell whose score after placing
  the symbol there is greatest among the valid cells and strictly greater than the score
  of every valid cell before it in row-major order, and it leaves the game as it was. On
  the empty 15 by 15 board with \<open>win_length = 5\<close>, Greedy for \<open>X\<close> returns the cell
  \<open>(7, 7)\<close>.
\<close>

theorem greedy_ai_first_maximum:
  "(wf_board g \<and> is_valid_move g r0 c0 \<longrightarrow>
      (\<exists>row col. greedy_ai g mark = (Some (row, col), g) \<and> is_valid_move g row col \<and>
         (\<forall>r c. is_valid_move g r c \<longrightarrow>
            evaluate_board (set_cell g r c mark) mark
              \<le> evaluate_board (set_cell g row col mark) mark) \<and>
         (\<forall>r c. is_valid_move g r c \<and> row_major_less (r, c) (row, col) \<longrightarrow>
            evaluate_board (set_cell g r c mark) mark
              < evaluate_board (set_cell g row col mark) mark))) \<and>
   fst (greedy_ai (init_gomoku 15 5 tlim) ''X'') = Some (7, 7)"
proof -
  have "snd (greedy_ai g mark) = g" by (simp add: greedy_ai_selection)
  then have "greedy_ai g mark = (Some (row, col), g)"
    if "fst (greedy_ai g mark) = Some (row, col)" for row col
    using that by (simp add: prod_eq_iff)
  with greedy_ai_first_max [of g r0 c0 mark] greedy_center_15 [of tlim]
  show ?thesis by blast
qed

theorem greedy_ai_first_maximum_witness:
  "wf_board (init_gomoku 3 3 2) \<and> is_valid_move (init_gomoku 3 3 2) 1 1 \<and>
   (\<exists>row col. greedy_ai (init_gomoku 3 3 2) ''X'' = (Some (row, col), init_gomoku 3 3 2) \<and>
      is_valid_move (init_gomoku 3 3 2) row col \<and>
      evaluate_board (set_cell (init_gomoku 3 3 2) 1 1 ''X'') ''X''
        \<le> evaluate_board (set_cell (init_gomoku 3 3 2) row col ''X'') ''X'')"
proof -
  have wf: "wf_board (init_gomoku 3 3 2)" by (rule wf_board_init)
  have v: "is_valid_move (init_gomoku 3 3 2) 1 1"
    by (simp add: is_valid_move_init in_bounds_def)
  from wf v greedy_ai_first_maximum [of "init_gomoku 3 3 2" 1 1 "''X''"]
  show ?thesis by blast
qed

text \<open>
  C6. On a board with a valid move, a player of type \<open>worst\<close> gets from \<open>get_ai_move\<close>
  the move of \<open>worst_ai\<close> for the opponent's symbol: a valid cell whose score for the
  opponent, after placing the opponent's symbol there, is least among the valid cells and
  strictly less than that of every valid cell before it in row-major order. The player's
  own symbol is neither placed nor scored, and the game is returned as it was.
\<close>

theorem worst_ai_first_minimum:
  "wf_board g \<Longrightarrow> is_valid_move g r0 c0 \<Longrightarrow> ai_type p = Some ''worst'' \<Longrightarrow>
     \<exists>row col.
       get_ai_move clock rnd (g, k) p opponent = Some (Some (row, col), g, k) \<and>
       worst_ai g (symbol opponent) = (Some (row, col), g) \<and>
       is_valid_move g row col \<and>
       (\<forall>r c. is_valid_move g r c \<longrightarrow>
          evaluate_board (set_cell g row col (symbol opponent)) (symbol opponent)
            \<le> evaluate_board (set_cell g r c (symbol opponent)) (symbol opponent)) \<and>
       (\<forall>r c. is_valid_move g r c \<and> row_major_less (r, c) (row, col) \<longrightarrow>
          evaluate_board (set_cell g row col (symbol opponent)) (symbol opponent)
            < evaluate_board (set_cell g r c (symbol opponent)) (symbol opponent))"
proof -
  assume valid: "is_valid_move g r0 c0" and worst: "ai_type p = Some ''worst''"
  have g: "snd (worst_ai g (symbol opponent)) = g" by (simp add: worst_ai_selection)
  from worst have "get_ai_move clock rnd (g, k) p opponent =
      Some (fst (worst_ai g (symbol opponent)), g, k)"
    by (simp add: get_ai_move_def g)
  moreover have "worst_ai g (symbol opponent) = (Some (row, col), g)"
    if "fst (worst_ai g (symbol opponent)) = Some (row, col)" for row col
    using that g by (simp add: prod_eq_iff)
  ultimately show ?thesis using worst_ai_first_min [OF valid, of "symbol opponent"] by fastforce
qed

theorem worst_ai_first_minimum_witness:
  "wf_board (init_gomoku 3 3 2) \<and> is_valid_move (init_gomoku 3 3 2) 1 1 \<and>
   ai_type \<lparr>symbol = ''X'', ai_type = Some ''worst''\<rparr> = Some ''worst'' \<and>
   (\<exists>row col.
      get_ai_move (\<lambda>k. 0) 0 (init_gomoku 3 3 2, 0) \<lparr>symbol = ''X'', ai_type = Some ''worst''\<rparr>
          \<lparr>symbol = ''O'', ai_type = None\<rparr> = Some (Some (row, col), init_gomoku 3 3 2, 0) \<and>
      is_valid_move (init_gomoku 3 3 2) row col \<and>
      evaluate_board (set_cell (init_gomoku 3 3 2) row col ''O'') ''O''
        \<le> evaluate_board (set_cell (init_gomoku 3 3 2) 1 1 ''O'') ''O'')"
proof -
  have wf: "wf_board (init_gomoku 3 3 2)" by (rule wf_board_init)
  have v: "is_valid_move (init_gomoku 3 3 2) 1 1"
    by (simp add: is_valid_move_init in_bounds_def)
  have t: "ai_type \<lparr>symbol = ''X'', ai_type = Some ''worst''\<rparr> = Some ''worst''" by simp
  from worst_ai_first_minimum [OF wf v t, of "\<lambda>k. 0" 0 0 "\<lparr>symbol = ''O'', ai_type = None\<rparr>"]
  obtain row col where
    "get_ai_move (\<lambda>k. 0) 0 (init_gomoku 3 3 2, 0) \<lparr>symbol = ''X'', ai_type = Some ''worst''\<rparr>
          \<lparr>symbol = ''O'', ai_type = None\<rparr> = Some (Some (row, col), init_gomoku 3 3 2, 0)"
    "is_valid_move (init_gomoku 3 3 2) row col"
    "\<forall>r c. is_valid_move (init_gomoku 3 3 2) r c \<longrightarrow>
          evaluate_board (set_cell (init_gomoku 3 3 2) row col ''O'') ''O''
            \<le> evaluate_board (set_cell (init_gomoku 3 3 2) r c ''O'') ''O''"
    by auto
  with wf v t show ?thesis by blast
qed

section \<open>The search restores the board\<close>

lemma search_frame_refl [simp]: "search_frame s s"
  by (simp add: search_frame_def)

lemma search_frame_trans: "search_frame s t \<Longrightarrow> search_frame t u \<Longrightarrow> search_frame s u"
proof -
  assume a: "search_frame s t" and b: "search_frame t u"
  from a have "fst t = (fst s)\<lparr>nodes_expanded := nodes_expanded (fst t)\<rparr>"
    by (simp add: search_frame_def)
  moreover from b have "fst u = (fst t)\<lparr>nodes_expanded := nodes_expanded (fst u)\<rparr>"
    by (simp add: search_frame_def)
  ultimately have "fst u = (fst s)\<lparr>nodes_expanded := nodes_expanded (fst u)\<rparr>"
    by (metis gomoku.update_convs(6) gomoku.surjective)
  with a b show ?thesis by (simp add: search_frame_def)
qed

lemma search_frame_fields:
  assumes "search_frame (g, k) (g', k')"
  shows "board g' = board g" "board_size g' = board_size g" "win_length g' = win_length g"
    "ai_time_limit g' = ai_time_limit g" "current_player g' = current_player g" "k \<le> k'"
proof -
  from assms have eq: "g' = g\<lparr>nodes_expanded := nodes_expanded g'\<rparr>" and "k \<le> k'"
    by (simp_all add: search_frame_def)
  show "k \<le> k'" by fact
  show "board g' = board g" by (subst eq) simp
  show "board_size g' = board_size g" by (subst eq) simp
  show "win_length g' = win_length g" by (subst eq) simp
  show "ai_time_limit g' = ai_time_limit g" by (subst eq) simp
  show "current_player g' = current_player g" by (subst eq) simp
qed

lemma search_frame_nodes: "search_frame (g, k) (g\<lparr>nodes_expanded := n\<rparr>, k)"
  by (simp add: search_frame_def)

text \<open>A speculative move on a valid cell, a framed call, the retraction: framed.\<close>

lemma search_frame_place_retract:
  assumes valid: "is_valid_move g row col"
    and rec: "search_frame (set_cell g row col v, k) (g2, k2)"
  shows "search_frame (g, k) (set_cell g2 row col ''.'', k2)"
proof -
  from rec have eq: "g2 = (set_cell g row col v)\<lparr>nodes_expanded := nodes_expanded g2\<rparr>"
    and k: "k \<le> k2"
    by (simp_all add: search_frame_def)
  have "set_cell g2 row col ''.'' =
      (set_cell (set_cell g row col v) row col ''.'')\<lparr>nodes_expanded := nodes_expanded g2\<rparr>"
    by (subst eq) (simp add: set_cell_def)
  also have "\<dots> = g\<lparr>nodes_expanded := nodes_expanded g2\<rparr>"
    using valid by (simp add: retract_valid)
  finally show ?thesis using k by (simp add: search_frame_def)
qed

lemma max_cols_frame:
  assumes rec: "\<And>a b s. search_frame s (snd (rec a b s))"
  shows "search_frame (g, k) (fst (max_cols rec mark beta row cols (g, k, bv, al)),
      fst (snd (max_cols rec mark beta row cols (g, k, bv, al))))"
proof (induction cols arbitrary: g k bv al)
  case Nil
  show ?case by simp
next
  case (Cons col cols)
  show ?case
  proof (cases "is_valid_move g row col")
    case False
    with Cons.IH [of g k bv al] show ?thesis by simp
  next
    case True
    obtain val g2 k2 where r: "rec al beta (set_cell g row col mark, k) = (val, g2, k2)"
      by (cases "rec al beta (set_cell g row col mark, k)")
    from rec [of "(set_cell g row col mark, k)" al beta] r
    have "search_frame (set_cell g row col mark, k) (g2, k2)" by simp
    with True have f3: "search_frame (g, k) (set_cell g2 row col ''.'', k2)"
      by (rule search_frame_place_retract)
    show ?thesis
    proof (cases "beta \<le> max al val")
      case True
      with \<open>is_valid_move g row col\<close> r f3 show ?thesis by simp
    next
      case False
      let ?g4 = "(set_cell g2 row col ''.'')\<lparr>nodes_expanded := nodes_expanded (set_cell g2 row col ''.'') + 1\<rparr>"
      have "search_frame (set_cell g2 row col ''.'', k2) (?g4, k2)"
        by (rule search_frame_nodes)
      with f3 have "search_frame (g, k) (?g4, k2)" by (rule search_frame_trans)
      from this Cons.IH [of ?g4 k2 "max bv val" "max al val"]
      have "search_frame (g, k)
          (fst (max_cols rec mark beta row cols (?g4, k2, max bv val, max al val)),
           fst (snd (max_cols rec mark beta row cols (?g4, k2, max bv val, max al val))))"
        by (rule search_frame_trans)
      with \<open>is_valid_move g row col\<close> r False show ?thesis by simp
    qed
  qed
qed

lemma min_cols_frame:
  assumes rec: "\<And>a b s. search_frame s (snd (rec a b s))"
  shows "search_frame (g, k) (fst (min_cols rec mark alpha row cols (g, k, bv, be)),
      fst (snd (min_cols rec mark alpha row cols (g, k, bv, be))))"
proof (induction cols arbitrary: g k bv be)
  case Nil
  show ?case by simp
next
  case (Cons col cols)
  show ?case
  proof (cases "is_valid_move g row col")
    case False
    with Cons.IH [of g k bv be] show ?thesis by simp
  next
    case True
    obtain val g2 k2 where r: "rec alpha be (set_cell g row col mark, k) = (val, g2, k2)"
      by (cases "rec alpha be (set_cell g row col mark, k)")
    from rec [of "(set_cell g row col mark, k)" alpha be] r
    have "search_frame (set_cell g row col mark, k) (g2, k2)" by simp
    with True have f3: "search_frame (g, k) (set_cell g2 row col ''.'', k2)"
      by (rule search_frame_place_retract)
    show ?thesis
    proof (cases "min be val \<le> alpha")
      case True
      with \<open>is_valid_move g row col\<close> r f3 show ?thesis by simp
    next
      case False
      let ?g4 = "(set_cell g2 row col ''.'')\<lparr>nodes_expanded := nodes_expanded (set_cell g2 row col ''.'') + 1\<rparr>"
      have "search_frame (set_cell g2 row col ''.'', k2) (?g4, k2)"
        by (rule search_frame_nodes)
      with f3 have "search_frame (g, k) (?g4, k2)" by (rule search_frame_trans)
      from this Cons.IH [of ?g4 k2 "min bv val" "min be val"]
      have "search_frame (g, k)
          (fst (min_cols rec mark alpha row cols (?g4, k2, min bv val, min be val)),
           fst (snd (min_cols rec mark alpha row cols (?g4, k2, min bv val, min be val))))"
        by (rule search_frame_trans)
      with \<open>is_valid_move g row col\<close> r False show ?thesis by simp
    qed
  qed
qed

lemma fold_frame:
  assumes step: "\<And>x g k t. search_frame (g, k) (fst (h x (g, k, t)), fst (snd (h x (g, k, t))))"
  shows "search_frame (g, k) (fst (fold h xs (g, k, t)), fst (snd (fold h xs (g, k, t))))"
proof (induction xs arbitrary: g k t)
  case Nil
  show ?case by simp
next
  case (Cons x xs)
  obtain g1 k1 t1 where s: "h x (g, k, t) = (g1, k1, t1)" by (cases "h x (g, k, t)")
  from step [of g k x t] s have "search_frame (g, k) (g1, k1)" by simp
  from this Cons.IH [of g1 k1 t1] have "search_frame (g, k)
      (fst (fold h xs (g1, k1, t1)), fst (snd (fold h xs (g1, k1, t1))))"
    by (rule search_frame_trans)
  with s show ?case by simp
qed

lemma minimax_frame:
  "search_frame s (snd (minimax clock d alpha beta mx mark opp start s))"
proof (induction d arbitrary: alpha beta mx s)
  case 0
  show ?case by (cases s) simp
next
  case (Suc d)
  obtain g k where s: "s = (g, k)" by (cases s)
  have up: "search_frame (g, k) (g, Suc k)" by (simp add: search_frame_def)
  show ?case
  proof (cases "is_full g \<or> clock k - start > ai_time_limit g")
    case True
    then show ?thesis unfolding s by (auto simp: search_frame_def)
  next
    case False
    show ?thesis
    proof (cases mx)
      case True
      let ?h = "\<lambda>row st. max_cols (\<lambda>a b s. minimax clock d a b False mark opp start s)
          mark beta row (py_range 0 (board_size g)) st"
      let ?r = "fold ?h (py_range 0 (board_size g)) (g, Suc k, NegInf, alpha)"
      have "search_frame (g', k') (fst (?h x (g', k', t)), fst (snd (?h x (g', k', t))))"
        for x g' k' t
        by (cases t) (simp add: max_cols_frame [OF Suc.IH])
      then have "search_frame (g, Suc k) (fst ?r, fst (snd ?r))"
        by (rule fold_frame)
      with up have "search_frame (g, k) (fst ?r, fst (snd ?r))" by (rule search_frame_trans)
      with True False show ?thesis unfolding s by (simp add: case_prod_unfold Let_def)
    next
      case mn: False
      let ?h = "\<lambda>row st. min_cols (\<lambda>a b s. minimax clock d a b True mark opp start s)
          opp alpha row (py_range 0 (board_size g)) st"
      let ?r = "fold ?h (py_range 0 (board_size g)) (g, Suc k, PosInf, beta)"
      have "search_frame (g', k') (fst (?h x (g', k', t)), fst (snd (?h x (g', k', t))))"
        for x g' k' t
        by (cases t) (simp add: min_cols_frame [OF Suc.IH])
      then have "search_frame (g, Suc k) (fst ?r, fst (snd ?r))"
        by (rule fold_frame)
      with up have "search_frame (g, k) (fst ?r, fst (snd ?r))" by (rule search_frame_trans)
      with mn False show ?thesis unfolding s by (simp add: case_prod_unfold Let_def)
    qed
  qed
qed

lemma search_frame_valid:
  assumes "search_frame (g, k) (g', k')"
  shows "is_valid_move g' r c = is_valid_move g r c" "wf_board g' = wf_board g"
    "is_full g' = is_full g"
  using search_frame_fields [OF assms]
  by (simp_all add: is_valid_move_def wf_board_def cell_at_def is_full_def)

lemma not_full_valid:
  assumes wf: "wf_board g" and nf: "\<not> is_full g"
  shows "\<exists>row \<in> {0..<board_size g}. \<exists>col \<in> {0..<board_size g}. is_valid_move g row col"
proof -
  from nf obtain r where r: "r \<in> set (board g)" "''.'' \<in> set r"
    by (auto simp: is_full_def list_all_iff)
  then obtain i j where i: "i < length (board g)" "board g ! i = r"
    and j: "j < length r" "r ! j = ''.''"
    by (auto simp: in_set_conv_nth)
  from wf r i j have "int i \<in> {0..<board_size g}" "int j \<in> {0..<board_size g}"
    by (auto simp: wf_board_def)
  moreover from this i j have "is_valid_move g (int i) (int j)"
    by (simp add: is_valid_move_def cell_at_def)
  ultimately show ?thesis by blast
qed

lemma max_cols_invalid:
  "\<not> is_valid_move g row col \<Longrightarrow>
     max_cols rec mark beta row (col # cols) (g, k, bv, al) =
       max_cols rec mark beta row cols (g, k, bv, al)"
  by simp

lemma max_cols_valid:
  "is_valid_move g row col \<Longrightarrow> rec al beta (set_cell g row col mark, k) = (val, g2, k2) \<Longrightarrow>
     max_cols rec mark beta row (col # cols) (g, k, bv, al) =
       (if beta \<le> max al val then (set_cell g2 row col ''.'', k2, max bv val, max al val)
        else max_cols rec mark beta row cols
               ((set_cell g2 row col ''.'')\<lparr>nodes_expanded := nodes_expanded g2 + 1\<rparr>, k2,
                max bv val, max al val))"
  by simp

lemma min_cols_invalid:
  "\<not> is_valid_move g row col \<Longrightarrow>
     min_cols rec mark alpha row (col # cols) (g, k, bv, be) =
       min_cols rec mark alpha row cols (g, k, bv, be)"
  by simp

lemma min_cols_valid:
  "is_valid_move g row col \<Longrightarrow> rec alpha be (set_cell g row col mark, k) = (val, g2, k2) \<Longrightarrow>
     min_cols rec mark alpha row (col # cols) (g, k, bv, be) =
       (if min be val \<le> alpha then (set_cell g2 row col ''.'', k2, min bv val, min be val)
        else min_cols rec mark alpha row cols
               ((set_cell g2 row col ''.'')\<lparr>nodes_expanded := nodes_expanded g2 + 1\<rparr>, k2,
                min bv val, min be val))"
  by simp

text \<open>
  A framed call on a speculative move leaves, after the retraction, the game of before
  with another count of nodes.
\<close>

lemma retract_framed:
  assumes valid: "is_valid_move g row col"
    and rec: "search_frame (set_cell g row col v, k) (g2, k2)"
  shows "set_cell g2 row col ''.'' = g\<lparr>nodes_expanded := nodes_expanded g2\<rparr>"
proof -
  from search_frame_place_retract [OF valid rec]
  have "set_cell g2 row col ''.'' =
      g\<lparr>nodes_expanded := nodes_expanded (set_cell g2 row col ''.'')\<rparr>"
    by (simp add: search_frame_def)
  then show ?thesis by simp
qed

lemma nodes_update_valid [simp]:
  "is_valid_move (g\<lparr>nodes_expanded := n\<rparr>) r c = is_valid_move g r c"
  "wf_board (g\<lparr>nodes_expanded := n\<rparr>) = wf_board g"
  "is_full (g\<lparr>nodes_expanded := n\<rparr>) = is_full g"
  by (simp_all add: is_valid_move_def wf_board_def cell_at_def is_full_def)

section \<open>The value of a node is an integer\<close>

lemma max_Fin: "bv \<noteq> PosInf \<Longrightarrow> \<exists>v. max bv (Fin w) = Fin v"
  by (cases bv) (simp_all add: max_def)

lemma min_Fin: "bv \<noteq> NegInf \<Longrightarrow> \<exists>v. min bv (Fin w) = Fin v"
  by (cases bv) (simp_all add: min_def)

lemma max_cols_value:
  assumes frame: "\<And>a b s. search_frame s (snd (rec a b s))"
    and fin: "\<And>a b s. wf_board (fst s) \<Longrightarrow> \<exists>v. fst (rec a b s) = Fin v"
  shows "wf_board g \<Longrightarrow> bv \<noteq> PosInf \<Longrightarrow>
     fst (snd (snd (max_cols rec mark beta row cols (g, k, bv, al)))) \<noteq> PosInf \<and>
     (fst (snd (snd (max_cols rec mark beta row cols (g, k, bv, al)))) = NegInf \<longrightarrow>
        bv = NegInf \<and> (\<forall>col \<in> set cols. \<not> is_valid_move g row col))"
proof (induction cols arbitrary: g k bv al)
  case Nil
  then show ?case by simp
next
  case (Cons col cols)
  show ?case
  proof (cases "is_valid_move g row col")
    case False
    with Cons.IH [OF Cons.prems, of k al] show ?thesis
      by (simp only: max_cols_invalid [OF False]) simp
  next
    case True
    obtain val g2 k2 where r: "rec al beta (set_cell g row col mark, k) = (val, g2, k2)"
      by (cases "rec al beta (set_cell g row col mark, k)")
    from Cons.prems(1) have "wf_board (set_cell g row col mark)" by (rule wf_board_set_cell)
    with frame [of "(set_cell g row col mark, k)" al beta]
      fin [of "(set_cell g row col mark, k)" al beta] r
    have fr: "search_frame (set_cell g row col mark, k) (g2, k2)" and "\<exists>v. val = Fin v"
      by simp_all
    then obtain w where val: "val = Fin w" by blast
    from max_Fin [OF Cons.prems(2), of w] obtain v where mx: "max bv val = Fin v"
      unfolding val by blast
    have g3: "set_cell g2 row col ''.'' = g\<lparr>nodes_expanded := nodes_expanded g2\<rparr>"
      using True fr by (rule retract_framed)
    show ?thesis
    proof (cases "beta \<le> max al val")
      case True
      with mx show ?thesis by (simp only: max_cols_valid [where rec = rec, OF \<open>is_valid_move g row col\<close> r]) simp
    next
      case False
      let ?g4 = "(set_cell g2 row col ''.'')\<lparr>nodes_expanded := nodes_expanded g2 + 1\<rparr>"
      have "wf_board ?g4" using Cons.prems(1) by (simp add: g3)
      from Cons.IH [OF this, of "max bv val" k2 "max al val"] mx False
      show ?thesis by (simp only: max_cols_valid [where rec = rec, OF \<open>is_valid_move g row col\<close> r]) simp
    qed
  qed
qed

lemma min_cols_value:
  assumes frame: "\<And>a b s. search_frame s (snd (rec a b s))"
    and fin: "\<And>a b s. wf_board (fst s) \<Longrightarrow> \<exists>v. fst (rec a b s) = Fin v"
  shows "wf_board g \<Longrightarrow> bv \<noteq> NegInf \<Longrightarrow>
     fst (snd (snd (min_cols rec mark alpha row cols (g, k, bv, be)))) \<noteq> NegInf \<and>
     (fst (snd (snd (min_cols rec mark alpha row cols (g, k, bv, be)))) = PosInf \<longrightarrow>
        bv = PosInf \<and> (\<forall>col \<in> set cols. \<not> is_valid_move g row col))"
proof (induction cols arbitrary: g k bv be)
  case Nil
  then show ?case by simp
next
  case (Cons col cols)
  show ?case
  proof (cases "is_valid_move g row col")
    case False
    with Cons.IH [OF Cons.prems, of k be] show ?thesis
      by (simp only: min_cols_invalid [OF False]) simp
  next
    case True
    obtain val g2 k2 where r: "rec alpha be (set_cell g row col mark, k) = (val, g2, k2)"
      by (cases "rec alpha be (set_cell g row col mark, k)")
    from Cons.prems(1) have "wf_board (set_cell g row col mark)" by (rule wf_board_set_cell)
    with frame [of "(set_cell g row col mark, k)" alpha be]
      fin [of "(set_cell g row col mark, k)" alpha be] r
    have fr: "search_frame (set_cell g row col mark, k) (g2, k2)" and "\<exists>v. val = Fin v"
      by simp_all
    then obtain w where val: "val = Fin w" by blast
    from min_Fin [OF Cons.prems(2), of w] obtain v where mn: "min bv val = Fin v"
      unfolding val by blast
    have g3: "set_cell g2 row col ''.'' = g\<lparr>nodes_expanded := nodes_expanded g2\<rparr>"
      using True fr by (rule retract_framed)
    show ?thesis
    proof (cases "min be val \<le> alpha")
      case True
      with mn show ?thesis by (simp only: min_cols_valid [where rec = rec, OF \<open>is_valid_move g row col\<close> r]) simp
    next
      case False
      let ?g4 = "(set_cell g2 row col ''.'')\<lparr>nodes_expanded := nodes_expanded g2 + 1\<rparr>"
      have "wf_board ?g4" using Cons.prems(1) by (simp add: g3)
      from Cons.IH [OF this, of "min bv val" k2 "min be val"] mn False
      show ?thesis by (simp only: min_cols_valid [where rec = rec, OF \<open>is_valid_move g row col\<close> r]) simp
    qed
  qed
qed

lemma max_rows_value:
  assumes frame: "\<And>a b s. search_frame s (snd (rec a b s))"
    and fin: "\<And>a b s. wf_board (fst s) \<Longrightarrow> \<exists>v. fst (rec a b s) = Fin v"
  shows "wf_board g \<Longrightarrow> bv \<noteq> PosInf \<Longrightarrow>
     fst (snd (snd (fold (\<lambda>row st. max_cols rec mark beta row cols st) rows (g, k, bv, al))))
       \<noteq> PosInf \<and>
     (fst (snd (snd (fold (\<lambda>row st. max_cols rec mark beta row cols st) rows (g, k, bv, al))))
        = NegInf \<longrightarrow>
        bv = NegInf \<and> (\<forall>row \<in> set rows. \<forall>col \<in> set cols. \<not> is_valid_move g row col))"
proof (induction rows arbitrary: g k bv al)
  case Nil
  then show ?case by simp
next
  case (Cons row rows)
  obtain g1 k1 bv1 al1 where
    st: "max_cols rec mark beta row cols (g, k, bv, al) = (g1, k1, bv1, al1)"
    by (cases "max_cols rec mark beta row cols (g, k, bv, al)")
  from max_cols_frame [of rec g k mark beta row cols bv al, OF frame] st
  have fr: "search_frame (g, k) (g1, k1)" by simp
  from max_cols_value [of rec g bv mark beta row cols k al, OF frame fin Cons.prems] st
  have v1: "bv1 \<noteq> PosInf"
    "bv1 = NegInf \<longrightarrow> bv = NegInf \<and> (\<forall>col \<in> set cols. \<not> is_valid_move g row col)"
    by simp_all
  from Cons.prems(1) fr have "wf_board g1" by (simp add: search_frame_valid)
  from Cons.IH [OF this v1(1), of k1 al1] v1(2) search_frame_valid(1) [OF fr]
  show ?case by (simp add: st)
qed

lemma min_rows_value:
  assumes frame: "\<And>a b s. search_frame s (snd (rec a b s))"
    and fin: "\<And>a b s. wf_board (fst s) \<Longrightarrow> \<exists>v. fst (rec a b s) = Fin v"
  shows "wf_board g \<Longrightarrow> bv \<noteq> NegInf \<Longrightarrow>
     fst (snd (snd (fold (\<lambda>row st. min_cols rec mark alpha row cols st) rows (g, k, bv, be))))
       \<noteq> NegInf \<and>
     (fst (snd (snd (fold (\<lambda>row st. min_cols rec mark alpha row cols st) rows (g, k, bv, be))))
        = PosInf \<longrightarrow>
        bv = PosInf \<and> (\<forall>row \<in> set rows. \<forall>col \<in> set cols. \<not> is_valid_move g row col))"
proof (induction rows arbitrary: g k bv be)
  case Nil
  then show ?case by simp
next
  case (Cons row rows)
  obtain g1 k1 bv1 be1 where
    st: "min_cols rec mark alpha row cols (g, k, bv, be) = (g1, k1, bv1, be1)"
    by (cases "min_cols rec mark alpha row cols (g, k, bv, be)")
  from min_cols_frame [of rec g k mark alpha row cols bv be, OF frame] st
  have fr: "search_frame (g, k) (g1, k1)" by simp
  from min_cols_value [of rec g bv mark alpha row cols k be, OF frame fin Cons.prems] st
  have v1: "bv1 \<noteq> NegInf"
    "bv1 = PosInf \<longrightarrow> bv = PosInf \<and> (\<forall>col \<in> set cols. \<not> is_valid_move g row col)"
    by simp_all
  from Cons.prems(1) fr have "wf_board g1" by (simp add: search_frame_valid)
  from Cons.IH [OF this v1(1), of k1 be1] v1(2) search_frame_valid(1) [OF fr]
  show ?case by (simp add: st)
qed

lemma minimax_unfold:
  "minimax clock (Suc d) alpha beta mx mark opp start (g, k) =
     (if is_full g then (Fin (evaluate_board g mark), g, k)
      else if clock k - start > ai_time_limit g then (Fin (evaluate_board g mark), g, Suc k)
      else if mx
      then (fst (snd (snd (fold (\<lambda>row st.
                 max_cols (\<lambda>a b s. minimax clock d a b False mark opp start s)
                   mark beta row (py_range 0 (board_size g)) st)
               (py_range 0 (board_size g)) (g, Suc k, NegInf, alpha)))),
            fst (fold (\<lambda>row st.
                 max_cols (\<lambda>a b s. minimax clock d a b False mark opp start s)
                   mark beta row (py_range 0 (board_size g)) st)
               (py_range 0 (board_size g)) (g, Suc k, NegInf, alpha)),
            fst (snd (fold (\<lambda>row st.
                 max_cols (\<lambda>a b s. minimax clock d a b False mark opp start s)
                   mark beta row (py_range 0 (board_size g)) st)
               (py_range 0 (board_size g)) (g, Suc k, NegInf, alpha))))
      else (fst (snd (snd (fold (\<lambda>row st.
                 min_cols (\<lambda>a b s. minimax clock d a b True mark opp start s)
                   opp alpha row (py_range 0 (board_size g)) st)
               (py_range 0 (board_size g)) (g, Suc k, PosInf, beta)))),
            fst (fold (\<lambda>row st.
                 min_cols (\<lambda>a b s. minimax clock d a b True mark opp start s)
                   opp alpha row (py_range 0 (board_size g)) st)
               (py_range 0 (board_size g)) (g, Suc k, PosInf, beta)),
            fst (snd (fold (\<lambda>row st.
                 min_cols (\<lambda>a b s. minimax clock d a b True mark opp start s)
                   opp alpha row (py_range 0 (board_size g)) st)
               (py_range 0 (board_size g)) (g, Suc k, PosInf, beta)))))"
  by (simp add: case_prod_unfold Let_def)

lemma minimax_Fin:
  "wf_board (fst s) \<Longrightarrow> \<exists>v. fst (minimax clock d alpha beta mx mark opp start s) = Fin v"
proof (induction d arbitrary: alpha beta mx s)
  case 0
  show ?case by (cases s) simp
next
  case (Suc d)
  obtain g k where s: "s = (g, k)" by (cases s)
  with Suc.prems have wf: "wf_board g" by simp
  show ?case
  proof (cases "is_full g \<or> clock k - start > ai_time_limit g")
    case True
    then show ?thesis unfolding s minimax_unfold by auto
  next
    case False
    with wf obtain r c where rc: "r \<in> {0..<board_size g}" "c \<in> {0..<board_size g}"
      "is_valid_move g r c"
      using not_full_valid by blast
    show ?thesis
    proof (cases mx)
      case True
      let ?v = "fst (snd (snd (fold (\<lambda>row st.
                 max_cols (\<lambda>a b s. minimax clock d a b False mark opp start s)
                   mark beta row (py_range 0 (board_size g)) st)
               (py_range 0 (board_size g)) (g, Suc k, NegInf, alpha))))"
      have "?v \<noteq> PosInf \<and> (?v = NegInf \<longrightarrow> NegInf = NegInf \<and>
          (\<forall>row \<in> set (py_range 0 (board_size g)). \<forall>col \<in> set (py_range 0 (board_size g)).
             \<not> is_valid_move g row col))"
        by (rule max_rows_value [OF minimax_frame Suc.IH wf]) simp_all
      with rc have "?v \<noteq> PosInf" "?v \<noteq> NegInf" by auto
      then obtain v where "?v = Fin v" by (cases ?v) simp_all
      with True False show ?thesis unfolding s minimax_unfold by simp
    next
      case mn: False
      let ?v = "fst (snd (snd (fold (\<lambda>row st.
                 min_cols (\<lambda>a b s. minimax clock d a b True mark opp start s)
                   opp alpha row (py_range 0 (board_size g)) st)
               (py_range 0 (board_size g)) (g, Suc k, PosInf, beta))))"
      have "?v \<noteq> NegInf \<and> (?v = PosInf \<longrightarrow> PosInf = PosInf \<and>
          (\<forall>row \<in> set (py_range 0 (board_size g)). \<forall>col \<in> set (py_range 0 (board_size g)).
             \<not> is_valid_move g row col))"
        by (rule min_rows_value [OF minimax_frame Suc.IH wf]) simp_all
      with rc have "?v \<noteq> PosInf" "?v \<noteq> NegInf" by auto
      then obtain v where "?v = Fin v" by (cases ?v) simp_all
      with mn False show ?thesis unfolding s minimax_unfold by simp
    qed
  qed
qed

section \<open>A sweep of the iterative deepening\<close>

lemma sweep_cells:
  "sweep clock depth mark opp start (g, k) =
     fold (\<lambda>rc (g, k, current_best_move, current_best_score).
             if is_valid_move g (fst rc) (snd rc)
             then let g1 = set_cell g (fst rc) (snd rc) mark;
                      (score, g2, k2) =
                        minimax clock (depth - 1) NegInf PosInf False mark opp start (g1, k);
                      g3 = set_cell g2 (fst rc) (snd rc) ''.''
                  in if score > current_best_score then (g3, k2, Some (fst rc, snd rc), score)
                     else (g3, k2, current_best_move, current_best_score)
             else (g, k, current_best_move, current_best_score))
       (row_major_cells g) (g, k, None, NegInf)"
  unfolding sweep_def row_major_cells_def fst_conv snd_conv
  by (subst fold_product [symmetric]) (simp cong: if_cong)

text \<open>
  One cell of a sweep: the game is framed; an invalid cell changes nothing else; a valid
  cell is committed when no move is held yet, and otherwise the held move stays or the
  cell replaces it.
\<close>

lemma sweep_step:
  fixes clock depth mark opp start
  defines "H \<equiv> \<lambda>rc (g, k, current_best_move, current_best_score).
             if is_valid_move g (fst rc) (snd rc)
             then let g1 = set_cell g (fst rc) (snd rc) mark;
                      (score, g2, k2) =
                        minimax clock (depth - 1) NegInf PosInf False mark opp start (g1, k);
                      g3 = set_cell g2 (fst rc) (snd rc) ''.''
                  in if score > current_best_score then (g3, k2, Some (fst rc, snd rc), score)
                     else (g3, k2, current_best_move, current_best_score)
             else (g, k, current_best_move, current_best_score)"
  assumes wf: "wf_board g" and res: "H rc (g, k, cbm, cbs) = (g', k', cbm', cbs')"
  shows "search_frame (g, k) (g', k') \<and>
     (\<not> is_valid_move g (fst rc) (snd rc) \<longrightarrow> cbm' = cbm \<and> cbs' = cbs) \<and>
     (is_valid_move g (fst rc) (snd rc) \<longrightarrow>
        (cbm' = Some rc \<or> cbm' = cbm \<and> cbs' = cbs) \<and> (cbs = NegInf \<longrightarrow> cbm' = Some rc))"
proof (cases "is_valid_move g (fst rc) (snd rc)")
  case False
  with res show ?thesis by (simp add: H_def)
next
  case True
  let ?g1 = "set_cell g (fst rc) (snd rc) mark"
  obtain score g2 k2 where
    r: "minimax clock (depth - 1) NegInf PosInf False mark opp start (?g1, k) = (score, g2, k2)"
    by (cases "minimax clock (depth - 1) NegInf PosInf False mark opp start (?g1, k)")
  from minimax_frame [of "(?g1, k)" clock "depth - 1" NegInf PosInf False mark opp start] r
  have fr: "search_frame (?g1, k) (g2, k2)" by simp
  from wf have "wf_board (fst (?g1, k))" by (simp add: wf_board_set_cell)
  from minimax_Fin [OF this, of clock "depth - 1" NegInf PosInf False mark opp start] r
  obtain v where v: "score = Fin v" by auto
  from True fr have f3: "search_frame (g, k) (set_cell g2 (fst rc) (snd rc) ''.'', k2)"
    by (rule search_frame_place_retract)
  from res True r have "(g', k', cbm', cbs') =
      (if score > cbs then (set_cell g2 (fst rc) (snd rc) ''.'', k2, Some rc, score)
       else (set_cell g2 (fst rc) (snd rc) ''.'', k2, cbm, cbs))"
    by (auto simp: H_def Let_def split: if_splits)
  with f3 v True show ?thesis by (auto split: if_splits)
qed

lemma sweep_fold:
  fixes clock depth mark opp start
  defines "H \<equiv> \<lambda>rc (g, k, current_best_move, current_best_score).
             if is_valid_move g (fst rc) (snd rc)
             then let g1 = set_cell g (fst rc) (snd rc) mark;
                      (score, g2, k2) =
                        minimax clock (depth - 1) NegInf PosInf False mark opp start (g1, k);
                      g3 = set_cell g2 (fst rc) (snd rc) ''.''
                  in if score > current_best_score then (g3, k2, Some (fst rc, snd rc), score)
                     else (g3, k2, current_best_move, current_best_score)
             else (g, k, current_best_move, current_best_score)"
  shows "wf_board g \<Longrightarrow> (cbm = None \<longrightarrow> cbs = NegInf) \<Longrightarrow>
     (\<forall>rc. cbm = Some rc \<longrightarrow> is_valid_move g (fst rc) (snd rc)) \<Longrightarrow>
     fold H cells (g, k, cbm, cbs) = (g', k', cbm', cbs') \<Longrightarrow>
     search_frame (g, k) (g', k') \<and>
     (cbm' = None \<longrightarrow>
        cbm = None \<and> (\<forall>rc \<in> set cells. \<not> is_valid_move g (fst rc) (snd rc))) \<and>
     (\<forall>rc. cbm' = Some rc \<longrightarrow> is_valid_move g (fst rc) (snd rc))"
proof (induction cells arbitrary: g k cbm cbs)
  case Nil
  then show ?case by simp
next
  case (Cons rc cells)
  obtain g1 k1 cbm1 cbs1 where st: "H rc (g, k, cbm, cbs) = (g1, k1, cbm1, cbs1)"
    by (cases "H rc (g, k, cbm, cbs)")
  from sweep_step [OF Cons.prems(1) st [unfolded H_def]]
  have fr: "search_frame (g, k) (g1, k1)"
    and inv: "\<not> is_valid_move g (fst rc) (snd rc) \<longrightarrow> cbm1 = cbm \<and> cbs1 = cbs"
    and val: "is_valid_move g (fst rc) (snd rc) \<longrightarrow>
        (cbm1 = Some rc \<or> cbm1 = cbm \<and> cbs1 = cbs) \<and> (cbs = NegInf \<longrightarrow> cbm1 = Some rc)"
    by simp_all
  note same = search_frame_valid [OF fr]
  from Cons.prems(1) have wf1: "wf_board g1" by (simp add: same)
  from Cons.prems(2) inv val have a: "cbm1 = None \<longrightarrow> cbs1 = NegInf" by auto
  from Cons.prems(3) inv val
  have b: "\<forall>x. cbm1 = Some x \<longrightarrow> is_valid_move g1 (fst x) (snd x)"
    unfolding same by auto
  from Cons.prems(4) st have "fold H cells (g1, k1, cbm1, cbs1) = (g', k', cbm', cbs')"
    by simp
  from Cons.IH [OF wf1 a b this]
  have c: "search_frame (g1, k1) (g', k')"
    "cbm' = None \<longrightarrow> cbm1 = None \<and> (\<forall>x \<in> set cells. \<not> is_valid_move g (fst x) (snd x))"
    "\<forall>x. cbm' = Some x \<longrightarrow> is_valid_move g (fst x) (snd x)"
    unfolding same by simp_all
  from fr c(1) have "search_frame (g, k) (g', k')" by (rule search_frame_trans)
  moreover have "cbm = None \<and> \<not> is_valid_move g (fst rc) (snd rc)" if "cbm1 = None"
    using that Cons.prems(2) inv val by auto
  ultimately show ?case using c(2,3) by auto
qed

lemma sweep_result:
  assumes wf: "wf_board g" and res: "sweep clock depth mark opp start (g, k) = (g', k', cbm, cbs)"
  shows "search_frame (g, k) (g', k') \<and>
     (cbm = None \<longrightarrow> (\<forall>r c. \<not> is_valid_move g r c)) \<and>
     (\<forall>r c. cbm = Some (r, c) \<longrightarrow> is_valid_move g r c)"
proof -
  from sweep_fold [OF wf _ _ res [unfolded sweep_cells]]
  have fr: "search_frame (g, k) (g', k')"
    and none: "cbm = None \<longrightarrow> (\<forall>rc \<in> set (row_major_cells g). \<not> is_valid_move g (fst rc) (snd rc))"
    and some: "\<forall>rc. cbm = Some rc \<longrightarrow> is_valid_move g (fst rc) (snd rc)"
    by simp_all
  have "\<not> is_valid_move g r c" if "cbm = None" for r c
    using none that valid_in_cells [of g r c] by fastforce
  with fr some show ?thesis by auto
qed

lemma sweep_frame:
  "search_frame (g, k) (fst (sweep clock depth mark opp start (g, k)),
     fst (snd (sweep clock depth mark opp start (g, k))))"
  unfolding sweep_cells
proof (rule fold_frame)
  fix x :: "int \<times> int" and g k and t :: "(int \<times> int) option \<times> score"
  let ?H = "\<lambda>rc (g, k, current_best_move, current_best_score).
             if is_valid_move g (fst rc) (snd rc)
             then let g1 = set_cell g (fst rc) (snd rc) mark;
                      (score, g2, k2) =
                        minimax clock (depth - 1) NegInf PosInf False mark opp start (g1, k);
                      g3 = set_cell g2 (fst rc) (snd rc) ''.''
                  in if score > current_best_score then (g3, k2, Some (fst rc, snd rc), score)
                     else (g3, k2, current_best_move, current_best_score)
             else (g, k, current_best_move, current_best_score)"
  obtain cbm cbs where t: "t = (cbm, cbs)" by (cases t)
  show "search_frame (g, k) (fst (?H x (g, k, t)), fst (snd (?H x (g, k, t))))"
  proof (cases "is_valid_move g (fst x) (snd x)")
    case False
    then show ?thesis by (simp add: t)
  next
    case True
    let ?g1 = "set_cell g (fst x) (snd x) mark"
    obtain score g2 k2 where
      r: "minimax clock (depth - 1) NegInf PosInf False mark opp start (?g1, k) = (score, g2, k2)"
      by (cases "minimax clock (depth - 1) NegInf PosInf False mark opp start (?g1, k)")
    from minimax_frame [of "(?g1, k)" clock "depth - 1" NegInf PosInf False mark opp start] r
    have "search_frame (?g1, k) (g2, k2)" by simp
    with True have "search_frame (g, k) (set_cell g2 (fst x) (snd x) ''.'', k2)"
      by (rule search_frame_place_retract)
    with True r show ?thesis by (simp add: t Let_def)
  qed
qed

section \<open>The loop of the iterative deepening\<close>

lemma deepening_loop_unfold:
  "deepening_loop clock mark opp start (depth, bm, bs, g, k) =
     (if clock k - start < ai_time_limit g
      then deepening_loop clock mark opp start
             (deepening_step clock mark opp start (depth, bm, bs, g, Suc k))
      else Some (bm, g, Suc k))"
  by (subst deepening_loop.simps) simp

lemma deepening_step_sweep:
  "sweep clock depth mark opp start (g, k) = (g', k', cbm, cbs) \<Longrightarrow>
     deepening_step clock mark opp start (depth, bm, bs, g, k) =
       (if cbm \<noteq> None then (depth + 1, cbm, cbs, g', k') else (depth + 1, bm, bs, g', k'))"
  by (simp add: deepening_step_def)


text \<open>Whenever the loop returns, it has framed the game.\<close>

lemma deepening_loop_frame:
  assumes ret: "deepening_loop clock mark opp start st = Some res"
  shows "search_frame (fst (snd (snd (snd st))), snd (snd (snd (snd st)))) (snd res)"
proof (rule deepening_loop.raw_induct
    [where P = "\<lambda>clock mark opp start st res.
        search_frame (fst (snd (snd (snd st))), snd (snd (snd (snd st)))) (snd res)", OF _ ret])
  fix f clock mark opp start and st :: "nat \<times> (int \<times> int) option \<times> score \<times> gomoku \<times> nat"
    and res :: "(int \<times> int) option \<times> gomoku \<times> nat"
  assume IH: "\<And>clock mark opp start st res. f clock mark opp start st = Some res \<Longrightarrow>
      search_frame (fst (snd (snd (snd st))), snd (snd (snd (snd st)))) (snd res)"
    and eq: "(if clock (snd (snd (snd (snd st)))) - start < ai_time_limit (fst (snd (snd (snd st))))
      then f clock mark opp start
             (deepening_step clock mark opp start
                (fst st, fst (snd st), fst (snd (snd st)), fst (snd (snd (snd st))),
                 Suc (snd (snd (snd (snd st))))))
      else Some (fst (snd st), fst (snd (snd (snd st))), Suc (snd (snd (snd (snd st)))))) = Some res"
  obtain depth bm bs g k where st: "st = (depth, bm, bs, g, k)" by (cases st)
  show "search_frame (fst (snd (snd (snd st))), snd (snd (snd (snd st)))) (snd res)"
  proof (cases "clock k - start < ai_time_limit g")
    case False
    with eq st have "res = (bm, g, Suc k)" by simp
    then show ?thesis by (simp add: st search_frame_def)
  next
    case True
    obtain g1 k1 cbm cbs where sw: "sweep clock depth mark opp start (g, Suc k) = (g1, k1, cbm, cbs)"
      by (cases "sweep clock depth mark opp start (g, Suc k)")
    from sweep_frame [of g "Suc k" clock depth mark opp start] sw
    have fr: "search_frame (g, Suc k) (g1, k1)" by simp
    have up: "search_frame (g, k) (g, Suc k)" by (simp add: search_frame_def)
    obtain bm1 bs1 where step: "deepening_step clock mark opp start (depth, bm, bs, g, Suc k) =
        (depth + 1, bm1, bs1, g1, k1)"
      by (cases "cbm \<noteq> None") (simp_all add: deepening_step_sweep [OF sw])
    with eq st True have "f clock mark opp start (depth + 1, bm1, bs1, g1, k1) = Some res"
      by simp
    from IH [OF this] have "search_frame (g1, k1) (snd res)" by simp
    with search_frame_trans [OF up fr] show ?thesis unfolding st
      by (simp add: search_frame_trans)
  qed
qed


text \<open>The states of the loop, counted from the state after the first turn.\<close>

lemma deepening_states_shift:
  "deepening_states clock mark opp start (depth, bm, bs, g, k) (Suc n) =
     deepening_states clock mark opp start
       (deepening_step clock mark opp start (depth, bm, bs, g, Suc k)) n"
proof (induction n)
  case 0
  show ?case by simp
next
  case (Suc n)
  have "deepening_states clock mark opp start (depth, bm, bs, g, k) (Suc (Suc n)) =
      (case deepening_states clock mark opp start (depth, bm, bs, g, k) (Suc n) of
         (depth, best_move, best_score, g, k) \<Rightarrow>
           deepening_step clock mark opp start (depth, best_move, best_score, g, Suc k))"
    by (rule deepening_states.simps(2))
  also have "\<dots> =
      (case deepening_states clock mark opp start
              (deepening_step clock mark opp start (depth, bm, bs, g, Suc k)) n of
         (depth, best_move, best_score, g, k) \<Rightarrow>
           deepening_step clock mark opp start (depth, best_move, best_score, g, Suc k))"
    by (simp only: Suc.IH)
  also have "\<dots> = deepening_states clock mark opp start
      (deepening_step clock mark opp start (depth, bm, bs, g, Suc k)) (Suc n)"
    by (rule deepening_states.simps(2) [symmetric])
  finally show ?case .
qed

text \<open>Each turn adds one to the depth and frames the game.\<close>

lemma deepening_step_frame:
  assumes "deepening_step clock mark opp start (d, bm, bs, g, k) = (d1, bm1, bs1, g1, k1)"
  shows "d1 = d + 1 \<and> search_frame (g, k) (g1, k1)"
proof -
  obtain g2 k2 cbm cbs where sw: "sweep clock d mark opp start (g, k) = (g2, k2, cbm, cbs)"
    by (cases "sweep clock d mark opp start (g, k)")
  from sweep_frame [of g k clock d mark opp start] sw
  have "search_frame (g, k) (g2, k2)" by simp
  moreover from assms deepening_step_sweep [OF sw, of bm bs]
  have "d1 = d + 1" "g1 = g2" "k1 = k2" by (auto split: if_splits)
  ultimately show ?thesis by simp
qed

lemma deepening_states_frame:
  "deepening_states clock mark opp start (d0, bm0, bs0, g0, k0) i = (d, bm, bs, g, k) \<Longrightarrow>
     d = d0 + i \<and> search_frame (g0, k0) (g, k)"
proof (induction i arbitrary: d bm bs g k)
  case 0
  then show ?case by simp
next
  case (Suc i)
  obtain d1 bm1 bs1 g1 k1 where
    st: "deepening_states clock mark opp start (d0, bm0, bs0, g0, k0) i = (d1, bm1, bs1, g1, k1)"
    by (cases "deepening_states clock mark opp start (d0, bm0, bs0, g0, k0) i")
  from Suc.IH [OF st] have d1: "d1 = d0 + i" and fr1: "search_frame (g0, k0) (g1, k1)"
    by simp_all
  obtain g2 k2 cbm cbs where sw: "sweep clock d1 mark opp start (g1, Suc k1) = (g2, k2, cbm, cbs)"
    by (cases "sweep clock d1 mark opp start (g1, Suc k1)")
  from sweep_frame [of g1 "Suc k1" clock d1 mark opp start] sw
  have fr2: "search_frame (g1, Suc k1) (g2, k2)" by simp
  have "search_frame (g1, k1) (g1, Suc k1)" by (simp add: search_frame_def)
  with fr1 have "search_frame (g0, k0) (g1, Suc k1)" by (rule search_frame_trans)
  from this fr2 have fr: "search_frame (g0, k0) (g2, k2)" by (rule search_frame_trans)
  from Suc.prems st have "deepening_step clock mark opp start (d1, bm1, bs1, g1, Suc k1) =
      (d, bm, bs, g, k)"
    by simp
  with deepening_step_sweep [OF sw, of bm1 bs1] have "d = d1 + 1" "g = g2" "k = k2"
    by (auto split: if_splits)
  with d1 fr show ?case by simp
qed

text \<open>
  When the clock passes the limit for good, the loop returns: it runs through its states
  as long as the guard holds, and returns the move of the first state at which the guard
  fails.
\<close>

lemma deepening_loop_states:
  assumes expiry: "\<forall>j \<ge> K. \<not> clock j - start < limit"
  shows "ai_time_limit g = limit \<Longrightarrow>
     \<exists>n d bm' bs' g' k'.
       deepening_states clock mark opp start (depth, bm, bs, g, k) n = (d, bm', bs', g', k') \<and>
       (\<forall>i < n. \<forall>di bi si gi ki.
          deepening_states clock mark opp start (depth, bm, bs, g, k) i = (di, bi, si, gi, ki) \<longrightarrow>
          clock ki - start < limit) \<and>
       \<not> clock k' - start < limit \<and>
       deepening_loop clock mark opp start (depth, bm, bs, g, k) = Some (bm', g', Suc k')"
proof (induction "K - k" arbitrary: depth bm bs g k rule: less_induct)
  case less
  note lim = less.prems
  show ?case
  proof (cases "clock k - start < limit")
    case False
    with lim
    have "deepening_loop clock mark opp start (depth, bm, bs, g, k) = Some (bm, g, Suc k)"
      by (simp add: deepening_loop_unfold)
    with False show ?thesis
      by (intro exI [of _ 0] exI [of _ depth] exI [of _ bm] exI [of _ bs] exI [of _ g]
          exI [of _ k]) simp
  next
    case True
    with expiry have kK: "k < K" by (metis not_le)
    obtain d1 bm1 bs1 g1 k1 where
      step: "deepening_step clock mark opp start (depth, bm, bs, g, Suc k) = (d1, bm1, bs1, g1, k1)"
      by (cases "deepening_step clock mark opp start (depth, bm, bs, g, Suc k)")
    from deepening_step_frame [OF step]
    have fr: "search_frame (g, Suc k) (g1, k1)" by simp
    from search_frame_fields(4,6) [OF fr] lim kK
    have lim1: "ai_time_limit g1 = limit" and dec: "K - k1 < K - k" by simp_all
    from less.hyps [OF dec lim1, of d1 bm1 bs1] obtain n d bm' bs' g' k' where
      fin: "deepening_states clock mark opp start (d1, bm1, bs1, g1, k1) n = (d, bm', bs', g', k')"
      and pass: "\<forall>i < n. \<forall>di bi si gi ki.
          deepening_states clock mark opp start (d1, bm1, bs1, g1, k1) i = (di, bi, si, gi, ki) \<longrightarrow>
          clock ki - start < limit"
      and stop: "\<not> clock k' - start < limit"
      and ret: "deepening_loop clock mark opp start (d1, bm1, bs1, g1, k1) = Some (bm', g', Suc k')"
      by blast
    note shift = deepening_states_shift [of clock mark opp start depth bm bs g k, unfolded step]
    from fin have fin': "deepening_states clock mark opp start (depth, bm, bs, g, k) (Suc n) =
        (d, bm', bs', g', k')"
      by (simp only: shift)
    have pass': "\<forall>i < Suc n. \<forall>di bi si gi ki.
          deepening_states clock mark opp start (depth, bm, bs, g, k) i = (di, bi, si, gi, ki) \<longrightarrow>
          clock ki - start < limit"
    proof (intro allI impI)
      fix i di bi si gi ki
      assume i: "i < Suc n"
        and st: "deepening_states clock mark opp start (depth, bm, bs, g, k) i = (di, bi, si, gi, ki)"
      show "clock ki - start < limit"
      proof (cases i)
        case 0
        with st True show ?thesis by simp
      next
        case (Suc j)
        with i have "j < n" by simp
        moreover from st Suc
        have "deepening_states clock mark opp start (d1, bm1, bs1, g1, k1) j = (di, bi, si, gi, ki)"
          by (simp only: shift)
        ultimately show ?thesis using pass by blast
      qed
    qed
    from True lim step ret
    have "deepening_loop clock mark opp start (depth, bm, bs, g, k) = Some (bm', g', Suc k')"
      by (simp add: deepening_loop_unfold)
    with fin' pass' stop show ?thesis by blast
  qed
qed

section \<open>Iterative deepening\<close>

text \<open>
  C1, as the code has it. On a board with a valid move, when the first test of the loop
  guard passes and the clock passes the limit for good at some reading, the loop makes
  some number \<open>n \<ge> 1\<close> of turns, the guard holding at the head of each and failing after
  the last, and \<open>iterative_deepening\<close> returns the move selected by the sweep of the last
  turn: the sweep of depth \<open>n\<close>, run on the state that the \<open>n - 1\<close> turns before it have
  left. That move is a valid cell and the board is as it was. No condition is put on the
  clock during a sweep: a sweep during which the deadline passes is committed like any
  other. (What is returned when the first test fails is not part of this statement.)
\<close>

theorem iterative_deepening_last_sweep:
  "wf_board g \<Longrightarrow> is_valid_move g r0 c0 \<Longrightarrow>
   clock (Suc k) - clock k < ai_time_limit g \<Longrightarrow>
   \<forall>j \<ge> K. \<not> clock j - clock k < ai_time_limit g \<Longrightarrow>
     \<exists>n bm bs gp kp row col sc g' k'.
       1 \<le> n \<and>
       (\<forall>i < n. \<forall>di bi si gi ki.
          deepening_states clock mark opp (clock k) (1, None, NegInf, g, Suc k) i =
            (di, bi, si, gi, ki) \<longrightarrow>
          clock ki - clock k < ai_time_limit g) \<and>
       deepening_states clock mark opp (clock k) (1, None, NegInf, g, Suc k) (n - 1) =
         (n, bm, bs, gp, kp) \<and>
       sweep clock n mark opp (clock k) (gp, Suc kp) = (g', k', Some (row, col), sc) \<and>
       deepening_states clock mark opp (clock k) (1, None, NegInf, g, Suc k) n =
         (Suc n, Some (row, col), sc, g', k') \<and>
       \<not> clock k' - clock k < ai_time_limit g \<and>
       iterative_deepening clock (g, k) mark opp = Some (Some (row, col), g', Suc k') \<and>
       is_valid_move g row col \<and> board g' = board g"
proof -
  assume wf: "wf_board g" and valid: "is_valid_move g r0 c0"
    and guard: "clock (Suc k) - clock k < ai_time_limit g"
    and expiry: "\<forall>j \<ge> K. \<not> clock j - clock k < ai_time_limit g"
  let ?s0 = "(1::nat, None :: (int \<times> int) option, NegInf, g, Suc k)"
  let ?st = "deepening_states clock mark opp (clock k) ?s0"
  from deepening_loop_states [OF expiry refl, of mark opp 1 None NegInf "Suc k"]
  obtain n d bm' bs' g' k' where fin: "?st n = (d, bm', bs', g', k')"
    and pass: "\<forall>i < n. \<forall>di bi si gi ki. ?st i = (di, bi, si, gi, ki) \<longrightarrow>
          clock ki - clock k < ai_time_limit g"
    and stop: "\<not> clock k' - clock k < ai_time_limit g"
    and ret: "deepening_loop clock mark opp (clock k) ?s0 = Some (bm', g', Suc k')"
    by blast
  have "n \<noteq> 0"
  proof
    assume "n = 0"
    with fin have "k' = Suc k" by simp
    with guard stop show False by simp
  qed
  then obtain m where n: "n = Suc m" by (cases n) simp_all
  obtain dm bm bs gp kp where stm: "?st m = (dm, bm, bs, gp, kp)" by (cases "?st m")
  from deepening_states_frame [OF stm]
  have dm: "dm = n" and frp: "search_frame (g, Suc k) (gp, kp)" by (simp_all add: n)
  note samep = search_frame_valid [OF frp]
  from wf have wfp: "wf_board gp" by (simp add: samep)
  from valid have validp: "is_valid_move gp r0 c0" by (simp add: samep)
  obtain g2 k2 cbm cbs where sw: "sweep clock n mark opp (clock k) (gp, Suc kp) = (g2, k2, cbm, cbs)"
    by (cases "sweep clock n mark opp (clock k) (gp, Suc kp)")
  from sweep_result [OF wfp sw] validp obtain row col
    where fr2: "search_frame (gp, Suc kp) (g2, k2)" and cbm: "cbm = Some (row, col)"
      and vrc: "is_valid_move gp row col"
    by (cases cbm) auto
  from fin n stm dm have "deepening_step clock mark opp (clock k) (n, bm, bs, gp, Suc kp) =
      (d, bm', bs', g', k')"
    by simp
  with deepening_step_sweep [OF sw, of bm bs] cbm
  have res: "d = Suc n" "bm' = Some (row, col)" "bs' = cbs" "g' = g2" "k' = k2"
    by simp_all
  have "search_frame (g, k) (g, Suc k)" by (simp add: search_frame_def)
  moreover have "search_frame (gp, kp) (gp, Suc kp)" by (simp add: search_frame_def)
  ultimately have "search_frame (g, k) (g2, k2)"
    using frp fr2 by (blast intro: search_frame_trans)
  then have board: "board g2 = board g" by (rule search_frame_fields)
  from vrc have vg: "is_valid_move g row col" by (simp add: samep)
  from ret have it: "iterative_deepening clock (g, k) mark opp = Some (bm', g', Suc k')"
    by (simp add: iterative_deepening_def)
  have a: "1 \<le> n" using n by simp
  have b: "?st (n - 1) = (n, bm, bs, gp, kp)" using stm dm n by simp
  have c: "sweep clock n mark opp (clock k) (gp, Suc kp) = (g', k', Some (row, col), cbs)"
    using sw cbm res by simp
  have e: "?st n = (Suc n, Some (row, col), cbs, g', k')" using fin res by simp
  have f: "iterative_deepening clock (g, k) mark opp = Some (Some (row, col), g', Suc k')"
    using it res by simp
  have h: "board g' = board g" using board res by simp
  from a pass b c e stop f vg h show ?thesis by blast
qed

theorem iterative_deepening_last_sweep_witness:
  "wf_board \<lparr>board_size = 2, win_length = 2, ai_time_limit = 3,
      board = [[''X'', ''.''], [''.'', ''O'']], current_player = None, nodes_expanded = 0\<rparr> \<and>
   is_valid_move \<lparr>board_size = 2, win_length = 2, ai_time_limit = 3,
      board = [[''X'', ''.''], [''.'', ''O'']], current_player = None, nodes_expanded = 0\<rparr> 0 1 \<and>
   real (Suc 0) - real 0 < ai_time_limit \<lparr>board_size = 2, win_length = 2, ai_time_limit = 3,
      board = [[''X'', ''.''], [''.'', ''O'']], current_player = None, nodes_expanded = 0\<rparr> \<and>
   \<not> real 3 - real 0 < ai_time_limit \<lparr>board_size = 2, win_length = 2, ai_time_limit = 3,
      board = [[''X'', ''.''], [''.'', ''O'']], current_player = None, nodes_expanded = 0\<rparr> \<and>
   (\<exists>row col g' k'.
      iterative_deepening real
        (\<lparr>board_size = 2, win_length = 2, ai_time_limit = 3,
           board = [[''X'', ''.''], [''.'', ''O'']], current_player = None, nodes_expanded = 0\<rparr>, 0)
        ''X'' ''O'' = Some (Some (row, col), g', Suc k') \<and>
      is_valid_move \<lparr>board_size = 2, win_length = 2, ai_time_limit = 3,
        board = [[''X'', ''.''], [''.'', ''O'']], current_player = None, nodes_expanded = 0\<rparr>
        row col \<and>
      board g' = [[''X'', ''.''], [''.'', ''O'']])"
proof -
  let ?g = "\<lparr>board_size = 2, win_length = 2, ai_time_limit = 3,
      board = [[''X'', ''.''], [''.'', ''O'']], current_player = None, nodes_expanded = 0\<rparr>"
  have wf: "wf_board ?g" by (simp add: wf_board_def)
  have v: "is_valid_move ?g 0 1" by (simp add: is_valid_move_def cell_at_def)
  have guard: "real (Suc 0) - real 0 < ai_time_limit ?g" by simp
  have expiry: "\<forall>j \<ge> 3. \<not> real j - real 0 < ai_time_limit ?g" by simp
  have stop: "\<not> real 3 - real 0 < ai_time_limit ?g" by simp
  from iterative_deepening_last_sweep [OF wf v guard expiry, of "''X''" "''O''"]
  obtain row col g' k' where
    "iterative_deepening real (?g, 0) ''X'' ''O'' = Some (Some (row, col), g', Suc k')"
    "is_valid_move ?g row col" "board g' = board ?g"
    by blast
  then have "\<exists>row col g' k'.
      iterative_deepening real (?g, 0) ''X'' ''O'' = Some (Some (row, col), g', Suc k') \<and>
      is_valid_move ?g row col \<and> board g' = [[''X'', ''.''], [''.'', ''O'']]"
    by auto
  with wf v guard stop show ?thesis by (intro conjI)
qed

text \<open>
  The claim C1 as the specification words it fails: a sweep during which the deadline
  passes does overwrite the committed move. On the 2 by 2 board with \<open>X\<close> at \<open>(0, 0)\<close>
  and \<open>O\<close> at \<open>(1, 1)\<close>, a limit of 3 and a clock that advances by 1 at each reading, the
  sweep of depth 1 selects \<open>(0, 1)\<close> (as the complete search of depth 2 would); the guard
  then passes at reading 2, the deadline passes at reading 4, inside the sweep of depth 2,
  whose second cell is therefore scored by \<open>evaluate_board\<close> alone; that sweep selects
  \<open>(1, 0)\<close>, and \<open>(1, 0)\<close> is returned.
\<close>

theorem iterative_deepening_interrupted_sweep_counterexample:
  "real 2 - real 0 < ai_time_limit \<lparr>board_size = 2, win_length = 2, ai_time_limit = 3,
      board = [[''X'', ''.''], [''.'', ''O'']], current_player = None, nodes_expanded = 0\<rparr> \<and>
   real 4 - real 0 > ai_time_limit \<lparr>board_size = 2, win_length = 2, ai_time_limit = 3,
      board = [[''X'', ''.''], [''.'', ''O'']], current_player = None, nodes_expanded = 0\<rparr> \<and>
   sweep real 1 ''X'' ''O'' (real 0)
     (\<lparr>board_size = 2, win_length = 2, ai_time_limit = 3,
        board = [[''X'', ''.''], [''.'', ''O'']], current_player = None, nodes_expanded = 0\<rparr>, 2) =
     (\<lparr>board_size = 2, win_length = 2, ai_time_limit = 3,
        board = [[''X'', ''.''], [''.'', ''O'']], current_player = None, nodes_expanded = 0\<rparr>, 2,
      Some (0, 1), Fin 27) \<and>
   unpruned_best_move 2 ''X'' ''O'' \<lparr>board_size = 2, win_length = 2, ai_time_limit = 3,
      board = [[''X'', ''.''], [''.'', ''O'']], current_player = None, nodes_expanded = 0\<rparr> =
     Some (0, 1) \<and>
   sweep real 2 ''X'' ''O'' (real 0)
     (\<lparr>board_size = 2, win_length = 2, ai_time_limit = 3,
        board = [[''X'', ''.''], [''.'', ''O'']], current_player = None, nodes_expanded = 0\<rparr>, 3) =
     (\<lparr>board_size = 2, win_length = 2, ai_time_limit = 3,
        board = [[''X'', ''.''], [''.'', ''O'']], current_player = None, nodes_expanded = 1\<rparr>, 5,
      Some (1, 0), Fin 27) \<and>
   iterative_deepening real
     (\<lparr>board_size = 2, win_length = 2, ai_time_limit = 3,
        board = [[''X'', ''.''], [''.'', ''O'']], current_player = None, nodes_expanded = 0\<rparr>, 0)
     ''X'' ''O'' =
     Some (Some (1, 0),
       \<lparr>board_size = 2, win_length = 2, ai_time_limit = 3,
          board = [[''X'', ''.''], [''.'', ''O'']], current_player = None, nodes_expanded = 1\<rparr>, 6)"
proof -
  let ?g = "\<lparr>board_size = 2, win_length = 2, ai_time_limit = 3,
      board = [[''X'', ''.''], [''.'', ''O'']], current_player = None, nodes_expanded = 0\<rparr>"
  let ?g' = "\<lparr>board_size = 2, win_length = 2, ai_time_limit = 3,
      board = [[''X'', ''.''], [''.'', ''O'']], current_player = None, nodes_expanded = 1\<rparr>"
  have a: "real 2 - real 0 < ai_time_limit ?g" by simp
  have b: "real 4 - real 0 > ai_time_limit ?g" by simp
  have c: "sweep real 1 ''X'' ''O'' (real 0) (?g, 2) = (?g, 2, Some (0, 1), Fin 27)"
    by code_simp
  have d: "unpruned_best_move 2 ''X'' ''O'' ?g = Some (0, 1)" by code_simp
  have e: "sweep real 2 ''X'' ''O'' (real 0) (?g, 3) = (?g', 5, Some (1, 0), Fin 27)"
    by code_simp
  have f: "iterative_deepening real (?g, 0) ''X'' ''O'' = Some (Some (1, 0), ?g', 6)"
    by code_simp
  from a b c d e f show ?thesis by (intro conjI)
qed

text \<open>
  With a limit of 0 and a clock that does not run backwards, the first test of the guard
  fails: no sweep runs and none is returned, although the board has a valid move (\<open>play\<close>
  then reports that there are no valid moves).
\<close>

lemma iterative_deepening_zero_limit:
  "is_valid_move (init_gomoku 1 1 0) 0 0 \<and>
   iterative_deepening (\<lambda>k. 0) (init_gomoku 1 1 0, 0) ''X'' ''O'' =
     Some (None, init_gomoku 1 1 0, 2)"
  by (simp add: is_valid_move_init in_bounds_def iterative_deepening_def deepening_loop_unfold
      numeral_2_eq_2)


section \<open>The strategies and the search leave the board as it was\<close>

text \<open>
  C10. Greedy and Worst return the game they were given. \<open>minimax\<close> returns a game that
  differs from the one it was given in the count of expanded nodes at most, whatever the
  window and whether or not pruning leaves a loop early. \<open>iterative_deepening\<close>, whenever
  it returns, returns such a game too, and it does return when the clock passes the time
  limit for good.
\<close>

theorem strategies_restore_board:
  "wf_board g \<Longrightarrow>
     snd (greedy_ai g mark) = g \<and> snd (worst_ai g mark) = g \<and>
     board (fst (snd (minimax clock d alpha beta mx mark opp start (g, k)))) = board g \<and>
     search_frame (g, k) (snd (minimax clock d alpha beta mx mark opp start (g, k))) \<and>
     (\<forall>res g' k'. iterative_deepening clock (g, k) mark opp = Some (res, g', k') \<longrightarrow>
        board g' = board g \<and> search_frame (g, k) (g', k')) \<and>
     ((\<exists>K. \<forall>j \<ge> K. \<not> clock j - clock k < ai_time_limit g) \<longrightarrow>
        (\<exists>res g' k'. iterative_deepening clock (g, k) mark opp = Some (res, g', k') \<and>
           board g' = board g))"
proof -
  assume wf: "wf_board g"
  have a: "snd (greedy_ai g mark) = g" by (simp add: greedy_ai_selection)
  have b: "snd (worst_ai g mark) = g" by (simp add: worst_ai_selection)
  obtain v g2 k2 where m: "minimax clock d alpha beta mx mark opp start (g, k) = (v, g2, k2)"
    by (cases "minimax clock d alpha beta mx mark opp start (g, k)")
  from minimax_frame [of "(g, k)" clock d alpha beta mx mark opp start] m
  have fr: "search_frame (g, k) (g2, k2)" by simp
  then have "board g2 = board g" by (rule search_frame_fields)
  with m fr have c: "board (fst (snd (minimax clock d alpha beta mx mark opp start (g, k)))) = board g"
    and c': "search_frame (g, k) (snd (minimax clock d alpha beta mx mark opp start (g, k)))"
    by simp_all
  have up: "search_frame (g, k) (g, Suc k)" by (simp add: search_frame_def)
  have e: "board g' = board g \<and> search_frame (g, k) (g', k')"
    if "iterative_deepening clock (g, k) mark opp = Some (res, g', k')" for res g' k'
  proof -
    from that deepening_loop_frame [of clock mark opp "clock k" "(1, None, NegInf, g, Suc k)" "(res, g', k')"]
    have "search_frame (g, Suc k) (g', k')" by (simp add: iterative_deepening_def)
    with up have "search_frame (g, k) (g', k')" by (rule search_frame_trans)
    then show ?thesis using search_frame_fields(1) by blast
  qed
  have f: "\<exists>res g' k'. iterative_deepening clock (g, k) mark opp = Some (res, g', k') \<and>
           board g' = board g"
    if "\<exists>K. \<forall>j \<ge> K. \<not> clock j - clock k < ai_time_limit g"
  proof -
    from that obtain K where K: "\<forall>j \<ge> K. \<not> clock j - clock k < ai_time_limit g" by blast
    have loop: "\<exists>bm' g' k'. deepening_loop clock mark opp (clock k) (depth, bm, bs, g1, k1) =
        Some (bm', g', k')"
      if "search_frame (g, k) (g1, k1)" for depth bm bs g1 k1
      using that
    proof (induction "K - k1" arbitrary: depth bm bs g1 k1 rule: less_induct)
      case less
      note same = search_frame_fields [OF less.prems]
      show ?case
      proof (cases "clock k1 - clock k < ai_time_limit g1")
        case False
        then show ?thesis by (simp add: deepening_loop_unfold)
      next
        case True
        with K same(4) have kK: "k1 < K" by (metis not_le)
        obtain g2 k2 cbm cbs where
          sw: "sweep clock depth mark opp (clock k) (g1, Suc k1) = (g2, k2, cbm, cbs)"
          by (cases "sweep clock depth mark opp (clock k) (g1, Suc k1)")
        from sweep_frame [of g1 "Suc k1" clock depth mark opp "clock k"] sw
        have fr1: "search_frame (g1, Suc k1) (g2, k2)" by simp
        have "search_frame (g1, k1) (g1, Suc k1)" by (simp add: search_frame_def)
        with less.prems have "search_frame (g, k) (g1, Suc k1)" by (rule search_frame_trans)
        from this fr1 have fr2: "search_frame (g, k) (g2, k2)" by (rule search_frame_trans)
        from search_frame_fields(6) [OF fr1] kK have dec: "K - k2 < K - k1" by simp
        obtain bm1 bs1 where step: "deepening_step clock mark opp (clock k) (depth, bm, bs, g1, Suc k1) =
            (depth + 1, bm1, bs1, g2, k2)"
          by (cases "cbm \<noteq> None") (simp_all add: deepening_step_sweep [OF sw])
        from less.hyps [OF dec fr2, of "depth + 1" bm1 bs1] True step
        show ?thesis by (simp add: deepening_loop_unfold)
      qed
    qed
    from loop [OF up, of 1 None NegInf] obtain res g' k'
      where "iterative_deepening clock (g, k) mark opp = Some (res, g', k')"
      by (auto simp: iterative_deepening_def)
    with e show ?thesis by blast
  qed
  from a b c c' e f show ?thesis by blast
qed

theorem strategies_restore_board_witness:
  "wf_board (init_gomoku 1 1 2) \<and>
   snd (greedy_ai (init_gomoku 1 1 2) ''X'') = init_gomoku 1 1 2 \<and>
   snd (worst_ai (init_gomoku 1 1 2) ''O'') = init_gomoku 1 1 2 \<and>
   board (fst (snd (minimax real 1 NegInf (Fin 0) True ''X'' ''O'' 0 (init_gomoku 1 1 2, 0))))
     = board (init_gomoku 1 1 2) \<and>
   \<not> real 2 - real 0 < ai_time_limit (init_gomoku 1 1 2) \<and>
   (\<exists>res g' k'. iterative_deepening real (init_gomoku 1 1 2, 0) ''X'' ''O'' = Some (res, g', k') \<and>
      board g' = board (init_gomoku 1 1 2))"
proof -
  have wf: "wf_board (init_gomoku 1 1 2)" by (rule wf_board_init)
  have "\<forall>j \<ge> 2. \<not> real j - real 0 < ai_time_limit (init_gomoku 1 1 2)" by simp
  then have expiry: "\<exists>K. \<forall>j \<ge> K. \<not> real j - real 0 < ai_time_limit (init_gomoku 1 1 2)" ..
  from strategies_restore_board [OF wf, of "''X''" real 1 NegInf "Fin 0" True "''O''" 0 0]
    strategies_restore_board [OF wf, of "''O''" real 1 NegInf "Fin 0" True "''X''" 0 0]
    strategies_restore_board [OF wf, of "''X''" real 1 NegInf "Fin 0" True "''O''" "real 0" 0]
    wf expiry
  show ?thesis by (simp del: of_nat_0)
qed

section \<open>The count of expanded nodes\<close>

text \<open>
  C3 asks that a visited cell be counted before the prune test. The code counts after
  the test, and the \<open>break\<close> skips the count: a maximizing node on the empty 1 by 1 board
  with the window \<open>(-\<infinity>, 0)\<close> visits its one cell, gets the value 13, prunes, and leaves
  \<open>nodes_expanded\<close> at 0; with the window \<open>(-\<infinity>, \<infinity>)\<close> the same visit is counted.
\<close>

theorem minimax_pruned_cell_not_counted:
  "is_valid_move (init_gomoku 1 1 1) 0 0 \<and>
   minimax (\<lambda>k. 0) 1 NegInf (Fin 0) True ''X'' ''O'' 0 (init_gomoku 1 1 1, 0) =
     (Fin 13, init_gomoku 1 1 1, 1) \<and>
   nodes_expanded (init_gomoku 1 1 1) = 0 \<and>
   minimax (\<lambda>k. 0) 1 NegInf PosInf True ''X'' ''O'' 0 (init_gomoku 1 1 1, 0) =
     (Fin 13, (init_gomoku 1 1 1)\<lparr>nodes_expanded := 1\<rparr>, 1)"
  by (simp add: init_gomoku_def py_range_def upto.simps is_valid_move_def cell_at_def
      set_cell_def is_full_def evaluate_board_def count_aligned_def count_adjacent_spaces_def
      potential_extension_def less_score_def)

section \<open>Pruning keeps the value of a node\<close>

text \<open>One more child of a maximizing node, searched with the window \<open>(al, beta)\<close>.\<close>

lemma max_step_sound:
  fixes alpha0 :: "'a::linorder"
  assumes w: "alpha0 < beta"
    and inv: "(bv \<le> alpha0 \<longrightarrow> M \<le> alpha0) \<and> (beta \<le> bv \<longrightarrow> beta \<le> M) \<and>
        (alpha0 < bv \<and> bv < beta \<longrightarrow> bv = M)"
    and child: "max alpha0 bv < beta \<longrightarrow>
        (r \<le> max alpha0 bv \<longrightarrow> x \<le> max alpha0 bv) \<and> (beta \<le> r \<longrightarrow> beta \<le> x) \<and>
        (max alpha0 bv < r \<and> r < beta \<longrightarrow> r = x)"
  shows "(max bv r \<le> alpha0 \<longrightarrow> max M x \<le> alpha0) \<and> (beta \<le> max bv r \<longrightarrow> beta \<le> max M x) \<and>
        (alpha0 < max bv r \<and> max bv r < beta \<longrightarrow> max bv r = max M x)"
proof (cases "max alpha0 bv < beta")
  case False
  with w have "beta \<le> bv" by (auto simp: max_def split: if_splits)
  with inv w show ?thesis by (auto simp: max_def)
next
  case True
  with child have c: "r \<le> max alpha0 bv \<longrightarrow> x \<le> max alpha0 bv" "beta \<le> r \<longrightarrow> beta \<le> x"
    "max alpha0 bv < r \<and> r < beta \<longrightarrow> r = x"
    by simp_all
  from True have bv: "bv < beta" by simp
  show ?thesis
  proof (cases "bv \<le> alpha0")
    case le: True
    with inv have M: "M \<le> alpha0" by simp
    from le have m: "max alpha0 bv = alpha0" by (auto simp: max_def)
    from c m M le w show ?thesis by (auto simp: max_def)
  next
    case gt: False
    with bv inv have M: "bv = M" by simp
    from gt have m: "max alpha0 bv = bv" by (auto simp: max_def)
    from c m M gt w bv show ?thesis by (auto simp: max_def)
  qed
qed

lemma min_step_sound:
  fixes beta0 :: "'a::linorder"
  assumes w: "alpha < beta0"
    and inv: "(bv \<le> alpha \<longrightarrow> M \<le> alpha) \<and> (beta0 \<le> bv \<longrightarrow> beta0 \<le> M) \<and>
        (alpha < bv \<and> bv < beta0 \<longrightarrow> bv = M)"
    and child: "alpha < min beta0 bv \<longrightarrow>
        (r \<le> alpha \<longrightarrow> x \<le> alpha) \<and> (min beta0 bv \<le> r \<longrightarrow> min beta0 bv \<le> x) \<and>
        (alpha < r \<and> r < min beta0 bv \<longrightarrow> r = x)"
  shows "(min bv r \<le> alpha \<longrightarrow> min M x \<le> alpha) \<and> (beta0 \<le> min bv r \<longrightarrow> beta0 \<le> min M x) \<and>
        (alpha < min bv r \<and> min bv r < beta0 \<longrightarrow> min bv r = min M x)"
proof (cases "alpha < min beta0 bv")
  case False
  with w have "bv \<le> alpha" by (auto simp: min_def split: if_splits)
  with inv w show ?thesis by (auto simp: min_def)
next
  case True
  with child have c: "r \<le> alpha \<longrightarrow> x \<le> alpha" "min beta0 bv \<le> r \<longrightarrow> min beta0 bv \<le> x"
    "alpha < r \<and> r < min beta0 bv \<longrightarrow> r = x"
    by simp_all
  from True have bv: "alpha < bv" by simp
  show ?thesis
  proof (cases "beta0 \<le> bv")
    case ge: True
    with inv have M: "beta0 \<le> M" by simp
    from ge have m: "min beta0 bv = beta0" by (auto simp: min_def)
    from c m M ge w show ?thesis by (auto simp: min_def)
  next
    case lt: False
    with bv inv have M: "bv = M" by simp
    from lt have m: "min beta0 bv = bv" by (auto simp: min_def)
    from c m M lt w bv show ?thesis by (auto simp: min_def)
  qed
qed

lemma window_sound_exact [simp]: "window_sound alpha beta v v"
  by (simp add: window_sound_def)

lemma window_sound_max:
  assumes "alpha0 < beta" "window_sound alpha0 beta bv M"
    "max alpha0 bv < beta \<longrightarrow> window_sound (max alpha0 bv) beta r x"
  shows "window_sound alpha0 beta (max bv r) (max M x)"
  using max_step_sound [of alpha0 beta bv M r x] assms unfolding window_sound_def by blast

lemma window_sound_min:
  assumes "alpha < beta0" "window_sound alpha beta0 bv M"
    "alpha < min beta0 bv \<longrightarrow> window_sound alpha (min beta0 bv) r x"
  shows "window_sound alpha beta0 (min bv r) (min M x)"
  using min_step_sound [of alpha beta0 bv M r x] assms unfolding window_sound_def by blast

text \<open>Once a maximizing node has reached \<open>beta\<close>, cells left out do not matter.\<close>

lemma window_sound_pruned_max:
  assumes "alpha0 < beta" "window_sound alpha0 beta bv M" "beta \<le> max alpha0 bv" "M \<le> M'"
  shows "window_sound alpha0 beta bv M'"
proof -
  from assms(1,3) have "beta \<le> bv" by (auto simp: max_def split: if_splits)
  with assms show ?thesis unfolding window_sound_def by auto
qed

lemma window_sound_pruned_min:
  assumes "alpha < beta0" "window_sound alpha beta0 bv M" "min beta0 bv \<le> alpha" "M' \<le> M"
  shows "window_sound alpha beta0 bv M'"
proof -
  from assms(1,3) have "bv \<le> alpha" by (auto simp: min_def split: if_splits)
  with assms show ?thesis unfolding window_sound_def by auto
qed

lemma fold_max_ge:
  "(M::score) \<le> fold (\<lambda>c best. if P c then max best (f c) else best) cs M"
proof (induction cs arbitrary: M)
  case Nil
  show ?case by simp
next
  case (Cons c cs)
  have "M \<le> (if P c then max M (f c) else M)" by simp
  also have "\<dots> \<le> fold (\<lambda>c best. if P c then max best (f c) else best) cs
      (if P c then max M (f c) else M)"
    by (rule Cons.IH)
  finally show ?case by simp
qed

lemma fold_min_le:
  "fold (\<lambda>c best. if P c then min best (f c) else best) cs M \<le> (M::score)"
proof (induction cs arbitrary: M)
  case Nil
  show ?case by simp
next
  case (Cons c cs)
  have "fold (\<lambda>c best. if P c then min best (f c) else best) cs
      (if P c then min M (f c) else M) \<le> (if P c then min M (f c) else M)"
    by (rule Cons.IH)
  also have "\<dots> \<le> M" by simp
  finally show ?case by simp
qed

lemma set_cell_nodes:
  "set_cell (g\<lparr>nodes_expanded := n\<rparr>) row col v = (set_cell g row col v)\<lparr>nodes_expanded := n\<rparr>"
  by (simp add: set_cell_def)

text \<open>
  The inner loop of a maximizing node, entered on the game \<open>g\<close> with some count of nodes:
  it leaves \<open>g\<close> with another count, keeps \<open>alpha\<close> at the greater of its start and the
  best value, and the best value is sound for the greatest value \<open>V\<close> of the valid cells.
\<close>

lemma max_cols_sound:
  assumes frame: "\<And>a b s. search_frame s (snd (rec a b s))"
    and sound: "\<And>a b col n k. a < b \<Longrightarrow> is_valid_move g row col \<Longrightarrow>
        window_sound a b
          (fst (rec a b ((set_cell g row col mark)\<lparr>nodes_expanded := n\<rparr>, k))) (V col)"
    and w: "alpha0 < beta"
  shows "window_sound alpha0 beta bv M \<Longrightarrow> al = max alpha0 bv \<Longrightarrow>
     max_cols rec mark beta row cols (g\<lparr>nodes_expanded := n\<rparr>, k, bv, al) = (g', k', bv', al') \<Longrightarrow>
     (\<exists>n'. g' = g\<lparr>nodes_expanded := n'\<rparr>) \<and> al' = max alpha0 bv' \<and>
     window_sound alpha0 beta bv'
       (fold (\<lambda>col best. if is_valid_move g row col then max best (V col) else best) cols M)"
proof (induction cols arbitrary: n k bv al M)
  case Nil
  then show ?case by auto
next
  case (Cons col cols)
  let ?gn = "g\<lparr>nodes_expanded := n\<rparr>"
  show ?case
  proof (cases "is_valid_move g row col")
    case False
    then have "\<not> is_valid_move ?gn row col" by simp
    from Cons.prems(3) [unfolded max_cols_invalid [OF this]]
    have "max_cols rec mark beta row cols (?gn, k, bv, al) = (g', k', bv', al')" .
    from Cons.IH [OF Cons.prems(1,2) this] False show ?thesis by simp
  next
    case True
    then have vn: "is_valid_move ?gn row col" by simp
    let ?g1 = "(set_cell g row col mark)\<lparr>nodes_expanded := n\<rparr>"
    obtain val g2 k2 where r: "rec al beta (?g1, k) = (val, g2, k2)"
      by (cases "rec al beta (?g1, k)")
    then have r': "rec al beta (set_cell ?gn row col mark, k) = (val, g2, k2)"
      by (simp add: set_cell_nodes)
    from frame [of "(set_cell ?gn row col mark, k)" al beta] r'
    have "search_frame (set_cell ?gn row col mark, k) (g2, k2)" by simp
    with vn have "set_cell g2 row col ''.'' = ?gn\<lparr>nodes_expanded := nodes_expanded g2\<rparr>"
      by (rule retract_framed)
    then have g3: "set_cell g2 row col ''.'' = g\<lparr>nodes_expanded := nodes_expanded g2\<rparr>"
      by simp
    have child: "max alpha0 bv < beta \<longrightarrow> window_sound (max alpha0 bv) beta val (V col)"
      using sound [of "max alpha0 bv" beta col n k] True r Cons.prems(2) by auto
    from w Cons.prems(1) child
    have S: "window_sound alpha0 beta (max bv val) (max M (V col))"
      by (rule window_sound_max)
    have al': "max al val = max alpha0 (max bv val)"
      by (simp add: Cons.prems(2) max.assoc)
    note step = max_cols_valid [where rec = rec, OF vn r', of cols bv]
    show ?thesis
    proof (cases "beta \<le> max al val")
      case brk: True
      with Cons.prems(3) step g3
      have res: "g' = g\<lparr>nodes_expanded := nodes_expanded g2\<rparr>" "bv' = max bv val"
        "al' = max al val"
        by simp_all
      have "window_sound alpha0 beta (max bv val)
          (fold (\<lambda>col best. if is_valid_move g row col then max best (V col) else best) cols
             (max M (V col)))"
        using w S brk [unfolded al'] by (rule window_sound_pruned_max) (rule fold_max_ge)
      with res al' True show ?thesis by auto
    next
      case cont: False
      with Cons.prems(3) step g3
      have "max_cols rec mark beta row cols
          (g\<lparr>nodes_expanded := nodes_expanded g2 + 1\<rparr>, k2, max bv val, max al val) =
          (g', k', bv', al')"
        by simp
      from Cons.IH [OF S al' this] True show ?thesis by simp
    qed
  qed
qed

lemma min_cols_sound:
  assumes frame: "\<And>a b s. search_frame s (snd (rec a b s))"
    and sound: "\<And>a b col n k. a < b \<Longrightarrow> is_valid_move g row col \<Longrightarrow>
        window_sound a b
          (fst (rec a b ((set_cell g row col mark)\<lparr>nodes_expanded := n\<rparr>, k))) (V col)"
    and w: "alpha < beta0"
  shows "window_sound alpha beta0 bv M \<Longrightarrow> be = min beta0 bv \<Longrightarrow>
     min_cols rec mark alpha row cols (g\<lparr>nodes_expanded := n\<rparr>, k, bv, be) = (g', k', bv', be') \<Longrightarrow>
     (\<exists>n'. g' = g\<lparr>nodes_expanded := n'\<rparr>) \<and> be' = min beta0 bv' \<and>
     window_sound alpha beta0 bv'
       (fold (\<lambda>col best. if is_valid_move g row col then min best (V col) else best) cols M)"
proof (induction cols arbitrary: n k bv be M)
  case Nil
  then show ?case by auto
next
  case (Cons col cols)
  let ?gn = "g\<lparr>nodes_expanded := n\<rparr>"
  show ?case
  proof (cases "is_valid_move g row col")
    case False
    then have "\<not> is_valid_move ?gn row col" by simp
    from Cons.prems(3) [unfolded min_cols_invalid [OF this]]
    have "min_cols rec mark alpha row cols (?gn, k, bv, be) = (g', k', bv', be')" .
    from Cons.IH [OF Cons.prems(1,2) this] False show ?thesis by simp
  next
    case True
    then have vn: "is_valid_move ?gn row col" by simp
    let ?g1 = "(set_cell g row col mark)\<lparr>nodes_expanded := n\<rparr>"
    obtain val g2 k2 where r: "rec alpha be (?g1, k) = (val, g2, k2)"
      by (cases "rec alpha be (?g1, k)")
    then have r': "rec alpha be (set_cell ?gn row col mark, k) = (val, g2, k2)"
      by (simp add: set_cell_nodes)
    from frame [of "(set_cell ?gn row col mark, k)" alpha be] r'
    have "search_frame (set_cell ?gn row col mark, k) (g2, k2)" by simp
    with vn have "set_cell g2 row col ''.'' = ?gn\<lparr>nodes_expanded := nodes_expanded g2\<rparr>"
      by (rule retract_framed)
    then have g3: "set_cell g2 row col ''.'' = g\<lparr>nodes_expanded := nodes_expanded g2\<rparr>"
      by simp
    have child: "alpha < min beta0 bv \<longrightarrow> window_sound alpha (min beta0 bv) val (V col)"
      using sound [of alpha "min beta0 bv" col n k] True r Cons.prems(2) by auto
    from w Cons.prems(1) child
    have S: "window_sound alpha beta0 (min bv val) (min M (V col))"
      by (rule window_sound_min)
    have be': "min be val = min beta0 (min bv val)"
      by (simp add: Cons.prems(2) min.assoc)
    note step = min_cols_valid [where rec = rec, OF vn r', of cols bv]
    show ?thesis
    proof (cases "min be val \<le> alpha")
      case brk: True
      with Cons.prems(3) step g3
      have res: "g' = g\<lparr>nodes_expanded := nodes_expanded g2\<rparr>" "bv' = min bv val"
        "be' = min be val"
        by simp_all
      have "window_sound alpha beta0 (min bv val)
          (fold (\<lambda>col best. if is_valid_move g row col then min best (V col) else best) cols
             (min M (V col)))"
        using w S brk [unfolded be'] by (rule window_sound_pruned_min) (rule fold_min_le)
      with res be' True show ?thesis by auto
    next
      case cont: False
      with Cons.prems(3) step g3
      have "min_cols rec mark alpha row cols
          (g\<lparr>nodes_expanded := nodes_expanded g2 + 1\<rparr>, k2, min bv val, min be val) =
          (g', k', bv', be')"
        by simp
      from Cons.IH [OF S be' this] True show ?thesis by simp
    qed
  qed
qed

lemma fold_pair_row:
  "fold h (map (Pair row) cols) M = fold (\<lambda>col. h (row, col)) cols M"
  by (simp add: fold_map comp_def)

lemma max_rows_sound:
  assumes frame: "\<And>a b s. search_frame s (snd (rec a b s))"
    and sound: "\<And>a b row col n k. a < b \<Longrightarrow> is_valid_move g row col \<Longrightarrow>
        window_sound a b
          (fst (rec a b ((set_cell g row col mark)\<lparr>nodes_expanded := n\<rparr>, k))) (V (row, col))"
    and w: "alpha0 < beta"
  shows "window_sound alpha0 beta bv M \<Longrightarrow> al = max alpha0 bv \<Longrightarrow>
     fold (\<lambda>row st. max_cols rec mark beta row cols st) rows
       (g\<lparr>nodes_expanded := n\<rparr>, k, bv, al) = (g', k', bv', al') \<Longrightarrow>
     window_sound alpha0 beta bv'
       (fold (\<lambda>rc best. if is_valid_move g (fst rc) (snd rc) then max best (V rc) else best)
          (List.product rows cols) M)"
proof (induction rows arbitrary: n k bv al M)
  case Nil
  then show ?case by simp
next
  case (Cons row rows)
  obtain g1 k1 bv1 al1 where
    st: "max_cols rec mark beta row cols (g\<lparr>nodes_expanded := n\<rparr>, k, bv, al) = (g1, k1, bv1, al1)"
    by (cases "max_cols rec mark beta row cols (g\<lparr>nodes_expanded := n\<rparr>, k, bv, al)")
  from max_cols_sound [where rec = rec and V = "\<lambda>col. V (row, col)",
      OF frame sound w Cons.prems(1,2) st]
  obtain n1 where g1: "g1 = g\<lparr>nodes_expanded := n1\<rparr>" and al1: "al1 = max alpha0 bv1"
    and S: "window_sound alpha0 beta bv1
       (fold (\<lambda>col best. if is_valid_move g row col then max best (V (row, col)) else best) cols M)"
    by blast
  from Cons.prems(3) st g1
  have "fold (\<lambda>row st. max_cols rec mark beta row cols st) rows
       (g\<lparr>nodes_expanded := n1\<rparr>, k1, bv1, al1) = (g', k', bv', al')"
    by simp
  from Cons.IH [OF S al1 this] show ?case by (simp add: fold_pair_row)
qed

lemma min_rows_sound:
  assumes frame: "\<And>a b s. search_frame s (snd (rec a b s))"
    and sound: "\<And>a b row col n k. a < b \<Longrightarrow> is_valid_move g row col \<Longrightarrow>
        window_sound a b
          (fst (rec a b ((set_cell g row col mark)\<lparr>nodes_expanded := n\<rparr>, k))) (V (row, col))"
    and w: "alpha < beta0"
  shows "window_sound alpha beta0 bv M \<Longrightarrow> be = min beta0 bv \<Longrightarrow>
     fold (\<lambda>row st. min_cols rec mark alpha row cols st) rows
       (g\<lparr>nodes_expanded := n\<rparr>, k, bv, be) = (g', k', bv', be') \<Longrightarrow>
     window_sound alpha beta0 bv'
       (fold (\<lambda>rc best. if is_valid_move g (fst rc) (snd rc) then min best (V rc) else best)
          (List.product rows cols) M)"
proof (induction rows arbitrary: n k bv be M)
  case Nil
  then show ?case by simp
next
  case (Cons row rows)
  obtain g1 k1 bv1 be1 where
    st: "min_cols rec mark alpha row cols (g\<lparr>nodes_expanded := n\<rparr>, k, bv, be) = (g1, k1, bv1, be1)"
    by (cases "min_cols rec mark alpha row cols (g\<lparr>nodes_expanded := n\<rparr>, k, bv, be)")
  from min_cols_sound [where rec = rec and V = "\<lambda>col. V (row, col)",
      OF frame sound w Cons.prems(1,2) st]
  obtain n1 where g1: "g1 = g\<lparr>nodes_expanded := n1\<rparr>" and be1: "be1 = min beta0 bv1"
    and S: "window_sound alpha beta0 bv1
       (fold (\<lambda>col best. if is_valid_move g row col then min best (V (row, col)) else best) cols M)"
    by blast
  from Cons.prems(3) st g1
  have "fold (\<lambda>row st. min_cols rec mark alpha row cols st) rows
       (g\<lparr>nodes_expanded := n1\<rparr>, k1, bv1, be1) = (g', k', bv', be')"
    by simp
  from Cons.IH [OF S be1 this] show ?case by (simp add: fold_pair_row)
qed

section \<open>The unpruned value does not depend on the count of nodes\<close>

lemma cell_at_nodes [simp]: "cell_at (g\<lparr>nodes_expanded := n\<rparr>) r c = cell_at g r c"
  by (simp add: cell_at_def)

lemma count_aligned_nodes [simp]:
  "count_aligned (g\<lparr>nodes_expanded := n\<rparr>) row col mark = count_aligned g row col mark"
  by (simp add: count_aligned_def Let_def cong: if_cong)

lemma count_adjacent_spaces_nodes [simp]:
  "count_adjacent_spaces (g\<lparr>nodes_expanded := n\<rparr>) row col = count_adjacent_spaces g row col"
  by (simp add: count_adjacent_spaces_def Let_def cong: if_cong)

lemma potential_extension_nodes [simp]:
  "potential_extension (g\<lparr>nodes_expanded := n\<rparr>) row col mark = potential_extension g row col mark"
  by (simp add: potential_extension_def Let_def cong: if_cong)

lemma evaluate_board_nodes [simp]:
  "evaluate_board (g\<lparr>nodes_expanded := n\<rparr>) mark = evaluate_board g mark"
  by (simp add: evaluate_board_def cong: if_cong)

lemma row_major_cells_nodes [simp]:
  "row_major_cells (g\<lparr>nodes_expanded := n\<rparr>) = row_major_cells g"
  by (simp add: row_major_cells_def)

lemma unpruned_minimax_nodes [simp]:
  "unpruned_minimax d mx mark opp (g\<lparr>nodes_expanded := n\<rparr>) = unpruned_minimax d mx mark opp g"
proof (induction d arbitrary: mx g)
  case 0
  show ?case by simp
next
  case (Suc d)
  show ?case by (simp add: set_cell_nodes Suc.IH cong: if_cong)
qed

lemma NegInf_least [simp]: "NegInf \<le> x" "max x NegInf = x" "max NegInf x = x"
  by (cases x; simp add: max_def)+

lemma PosInf_greatest [simp]: "x \<le> PosInf" "min x PosInf = x" "min PosInf x = x"
  by (cases x; simp add: min_def)+

lemma NegInf_less_PosInf [simp]: "NegInf < PosInf"
  by (simp add: less_score_def)

section \<open>Pruned and unpruned minimax\<close>

text \<open>
  While the clock stays within the time limit, the result of \<open>minimax\<close> with a window
  \<open>alpha < beta\<close> is sound for the unpruned value of the node.
\<close>

lemma minimax_sound:
  assumes never: "\<forall>j. \<not> clock j - start > L"
  shows "wf_board g \<Longrightarrow> ai_time_limit g = L \<Longrightarrow> alpha < beta \<Longrightarrow>
     window_sound alpha beta (fst (minimax clock d alpha beta mx mark opp start (g, k)))
       (unpruned_minimax d mx mark opp g)"
proof (induction d arbitrary: alpha beta mx g k)
  case 0
  show ?case by simp
next
  case (Suc d)
  note wf = Suc.prems(1) and L = Suc.prems(2) and w = Suc.prems(3)
  from never L have nt: "\<not> clock k - start > ai_time_limit g" by simp
  have gn: "g = g\<lparr>nodes_expanded := nodes_expanded g\<rparr>" by simp
  show ?case
  proof (cases "is_full g")
    case True
    then show ?thesis by (simp add: minimax_unfold)
  next
    case False
    show ?thesis
    proof (cases mx)
      case True
      let ?rec = "\<lambda>a b s. minimax clock d a b False mark opp start s"
      let ?V = "\<lambda>rc. unpruned_minimax d False mark opp (set_cell g (fst rc) (snd rc) mark)"
      let ?R = "fold (\<lambda>row st. max_cols ?rec mark beta row (py_range 0 (board_size g)) st)
          (py_range 0 (board_size g)) (g, Suc k, NegInf, alpha)"
      obtain g' k' bv' al' where R: "?R = (g', k', bv', al')" by (cases ?R)
      have sound: "window_sound a b
          (fst (?rec a b ((set_cell g row col mark)\<lparr>nodes_expanded := n\<rparr>, k))) (?V (row, col))"
        if "a < b" "is_valid_move g row col" for a b row col n k
        using Suc.IH [of "(set_cell g row col mark)\<lparr>nodes_expanded := n\<rparr>" a b False k] that wf L
        by (simp add: wf_board_set_cell)
      have "window_sound alpha beta bv'
          (fold (\<lambda>rc best. if is_valid_move g (fst rc) (snd rc) then max best (?V rc) else best)
             (List.product (py_range 0 (board_size g)) (py_range 0 (board_size g))) NegInf)"
      proof (rule max_rows_sound [where rec = ?rec and V = ?V and g = g and bv = NegInf
            and al = alpha and n = "nodes_expanded g" and k = "Suc k", OF _ _ w])
        show "search_frame s (snd (?rec a b s))" for a b s by (rule minimax_frame)
        show "window_sound a b
          (fst (?rec a b ((set_cell g row col mark)\<lparr>nodes_expanded := n\<rparr>, k))) (?V (row, col))"
          if "a < b" "is_valid_move g row col" for a b row col n k
          using that by (rule sound)
        show "window_sound alpha beta NegInf NegInf" by simp
        show "alpha = max alpha NegInf" by simp
        show "fold (\<lambda>row st. max_cols ?rec mark beta row (py_range 0 (board_size g)) st)
          (py_range 0 (board_size g)) (g\<lparr>nodes_expanded := nodes_expanded g\<rparr>, Suc k, NegInf, alpha)
            = (g', k', bv', al')"
          using R by simp
      qed
      with True False nt R show ?thesis
        by (simp add: minimax_unfold row_major_cells_def)
    next
      case mn: False
      let ?rec = "\<lambda>a b s. minimax clock d a b True mark opp start s"
      let ?V = "\<lambda>rc. unpruned_minimax d True mark opp (set_cell g (fst rc) (snd rc) opp)"
      let ?R = "fold (\<lambda>row st. min_cols ?rec opp alpha row (py_range 0 (board_size g)) st)
          (py_range 0 (board_size g)) (g, Suc k, PosInf, beta)"
      obtain g' k' bv' be' where R: "?R = (g', k', bv', be')" by (cases ?R)
      have sound: "window_sound a b
          (fst (?rec a b ((set_cell g row col opp)\<lparr>nodes_expanded := n\<rparr>, k))) (?V (row, col))"
        if "a < b" "is_valid_move g row col" for a b row col n k
        using Suc.IH [of "(set_cell g row col opp)\<lparr>nodes_expanded := n\<rparr>" a b True k] that wf L
        by (simp add: wf_board_set_cell)
      have "window_sound alpha beta bv'
          (fold (\<lambda>rc best. if is_valid_move g (fst rc) (snd rc) then min best (?V rc) else best)
             (List.product (py_range 0 (board_size g)) (py_range 0 (board_size g))) PosInf)"
      proof (rule min_rows_sound [where rec = ?rec and V = ?V and g = g and bv = PosInf
            and be = beta and n = "nodes_expanded g" and k = "Suc k", OF _ _ w])
        show "search_frame s (snd (?rec a b s))" for a b s by (rule minimax_frame)
        show "window_sound a b
          (fst (?rec a b ((set_cell g row col opp)\<lparr>nodes_expanded := n\<rparr>, k))) (?V (row, col))"
          if "a < b" "is_valid_move g row col" for a b row col n k
          using that by (rule sound)
        show "window_sound alpha beta PosInf PosInf" by simp
        show "beta = min beta PosInf" by simp
        show "fold (\<lambda>row st. min_cols ?rec opp alpha row (py_range 0 (board_size g)) st)
          (py_range 0 (board_size g)) (g\<lparr>nodes_expanded := nodes_expanded g\<rparr>, Suc k, PosInf, beta)
            = (g', k', bv', be')"
          using R by simp
      qed
      with mn False nt R show ?thesis
        by (simp add: minimax_unfold row_major_cells_def)
    qed
  qed
qed

lemma minimax_full_window:
  assumes never: "\<forall>j. \<not> clock j - start > ai_time_limit g" and wf: "wf_board g"
  shows "fst (minimax clock d NegInf PosInf mx mark opp start (g, k)) =
     unpruned_minimax d mx mark opp g"
proof -
  from minimax_Fin [of "(g, k)" clock d NegInf PosInf mx mark opp start] wf
  obtain v where v: "fst (minimax clock d NegInf PosInf mx mark opp start (g, k)) = Fin v"
    by auto
  from minimax_sound [OF never wf refl, of NegInf PosInf d mx mark opp k]
  have "window_sound NegInf PosInf (Fin v) (unpruned_minimax d mx mark opp g)"
    by (simp add: v)
  then show ?thesis by (simp add: window_sound_def v)
qed

text \<open>A sweep selects as the selection over the unpruned values does.\<close>

lemma sweep_fold_unpruned:
  fixes clock depth mark opp start g
  defines "H \<equiv> \<lambda>rc (g, k, current_best_move, current_best_score).
             if is_valid_move g (fst rc) (snd rc)
             then let g1 = set_cell g (fst rc) (snd rc) mark;
                      (score, g2, k2) =
                        minimax clock (depth - 1) NegInf PosInf False mark opp start (g1, k);
                      g3 = set_cell g2 (fst rc) (snd rc) ''.''
                  in if score > current_best_score then (g3, k2, Some (fst rc, snd rc), score)
                     else (g3, k2, current_best_move, current_best_score)
             else (g, k, current_best_move, current_best_score)"
  assumes never: "\<forall>j. \<not> clock j - start > ai_time_limit g" and wf: "wf_board g"
  shows "snd (snd (fold H cells (g\<lparr>nodes_expanded := n\<rparr>, k, cbm, cbs))) =
     fold (keep_best (>) (\<lambda>rc. is_valid_move g (fst rc) (snd rc))
             (\<lambda>rc. unpruned_minimax (depth - 1) False mark opp (set_cell g (fst rc) (snd rc) mark)))
       cells (cbm, cbs)"
proof (induction cells arbitrary: n k cbm cbs)
  case Nil
  show ?case by simp
next
  case (Cons rc cells)
  let ?gn = "g\<lparr>nodes_expanded := n\<rparr>"
  let ?P = "\<lambda>rc. is_valid_move g (fst rc) (snd rc)"
  let ?key = "\<lambda>rc. unpruned_minimax (depth - 1) False mark opp (set_cell g (fst rc) (snd rc) mark)"
  show ?case
  proof (cases "is_valid_move g (fst rc) (snd rc)")
    case False
    then have "H rc (?gn, k, cbm, cbs) = (?gn, k, cbm, cbs)" by (simp add: H_def)
    moreover from False have "keep_best (>) ?P ?key rc (cbm, cbs) = (cbm, cbs)"
      by (simp add: keep_best_def)
    ultimately show ?thesis using Cons.IH [of n k cbm cbs] by simp
  next
    case True
    then have vn: "is_valid_move ?gn (fst rc) (snd rc)" by simp
    let ?g1 = "(set_cell g (fst rc) (snd rc) mark)\<lparr>nodes_expanded := n\<rparr>"
    obtain score g2 k2 where
      r: "minimax clock (depth - 1) NegInf PosInf False mark opp start (?g1, k) = (score, g2, k2)"
      by (cases "minimax clock (depth - 1) NegInf PosInf False mark opp start (?g1, k)")
    from never have never1: "\<forall>j. \<not> clock j - start > ai_time_limit ?g1" by simp
    from wf have wf1: "wf_board ?g1" by (simp add: wf_board_set_cell)
    from minimax_full_window [OF never1 wf1, of "depth - 1" False mark opp k] r
    have score: "score = ?key rc" by simp
    from minimax_frame [of "(?g1, k)" clock "depth - 1" NegInf PosInf False mark opp start] r
    have "search_frame (set_cell ?gn (fst rc) (snd rc) mark, k) (g2, k2)"
      by (simp add: set_cell_nodes)
    with vn have "set_cell g2 (fst rc) (snd rc) ''.'' = ?gn\<lparr>nodes_expanded := nodes_expanded g2\<rparr>"
      by (rule retract_framed)
    then have g3: "set_cell g2 (fst rc) (snd rc) ''.'' = g\<lparr>nodes_expanded := nodes_expanded g2\<rparr>"
      by simp
    from vn r g3 have "H rc (?gn, k, cbm, cbs) =
        (if score > cbs then (g\<lparr>nodes_expanded := nodes_expanded g2\<rparr>, k2, Some rc, score)
         else (g\<lparr>nodes_expanded := nodes_expanded g2\<rparr>, k2, cbm, cbs))"
      by (simp add: H_def set_cell_nodes Let_def)
    moreover from True score have "keep_best (>) ?P ?key rc (cbm, cbs) =
        (if score > cbs then (Some rc, score) else (cbm, cbs))"
      by (simp add: keep_best_def)
    ultimately show ?thesis
      using Cons.IH [of "nodes_expanded g2" k2 "Some rc" score]
        Cons.IH [of "nodes_expanded g2" k2 cbm cbs]
      by simp
  qed
qed

text \<open>
  C2. On every board, for every depth of at least 1 and all symbols, while the clock
  stays within the time limit, the move that a sweep of the pruned search selects is the
  move of the unpruned minimax of the same depth with ties broken by the first cell in
  row-major order; and at every node, \<open>minimax\<close> with the full window returns the unpruned
  value.
\<close>

theorem pruned_sweep_selects_unpruned_move:
  "wf_board g \<Longrightarrow> \<forall>j. \<not> clock j - start > ai_time_limit g \<Longrightarrow> 1 \<le> depth \<Longrightarrow>
     fst (snd (snd (sweep clock depth mark opp start (g, k)))) =
       unpruned_best_move depth mark opp g \<and>
     fst (minimax clock d NegInf PosInf mx mark opp start (g, k)) =
       unpruned_minimax d mx mark opp g"
proof -
  assume wf: "wf_board g" and never: "\<forall>j. \<not> clock j - start > ai_time_limit g"
  have "g = g\<lparr>nodes_expanded := nodes_expanded g\<rparr>" by simp
  then have "sweep clock depth mark opp start (g, k) =
      sweep clock depth mark opp start (g\<lparr>nodes_expanded := nodes_expanded g\<rparr>, k)"
    by simp
  also note sweep_cells
  finally have "snd (snd (sweep clock depth mark opp start (g, k))) =
      fold (keep_best (>) (\<lambda>rc. is_valid_move g (fst rc) (snd rc))
             (\<lambda>rc. unpruned_minimax (depth - 1) False mark opp (set_cell g (fst rc) (snd rc) mark)))
        (row_major_cells g) (None, NegInf)"
    using sweep_fold_unpruned [OF never wf, where depth = depth and mark = mark and opp = opp
        and cells = "row_major_cells g" and n = "nodes_expanded g" and k = k and cbm = None
        and cbs = NegInf]
    by simp
  then have "fst (snd (snd (sweep clock depth mark opp start (g, k)))) =
      unpruned_best_move depth mark opp g"
    by (simp add: unpruned_best_move_def)
  with minimax_full_window [OF never wf, of d mx mark opp k] show ?thesis by simp
qed

theorem pruned_sweep_selects_unpruned_move_witness:
  "wf_board \<lparr>board_size = 2, win_length = 2, ai_time_limit = 5,
      board = [[''.'', ''.''], [''.'', ''.'']], current_player = None, nodes_expanded = 0\<rparr> \<and>
   \<not> (0::real) - 0 > ai_time_limit \<lparr>board_size = 2, win_length = 2, ai_time_limit = 5,
      board = [[''.'', ''.''], [''.'', ''.'']], current_player = None, nodes_expanded = 0\<rparr> \<and>
   (1::nat) \<le> 3 \<and>
   unpruned_best_move 3 ''X'' ''O'' \<lparr>board_size = 2, win_length = 2, ai_time_limit = 5,
      board = [[''.'', ''.''], [''.'', ''.'']], current_player = None, nodes_expanded = 0\<rparr>
     = Some (1, 1) \<and>
   fst (snd (snd (sweep (\<lambda>k. 0) 3 ''X'' ''O'' 0
     (\<lparr>board_size = 2, win_length = 2, ai_time_limit = 5,
        board = [[''.'', ''.''], [''.'', ''.'']], current_player = None, nodes_expanded = 0\<rparr>, 0))))
     = Some (1, 1)"
proof -
  let ?g = "\<lparr>board_size = 2, win_length = 2, ai_time_limit = 5,
      board = [[''.'', ''.''], [''.'', ''.'']], current_player = None, nodes_expanded = 0\<rparr>"
  have wf: "wf_board ?g" by (simp add: wf_board_def)
  have never: "\<forall>j. \<not> (\<lambda>k. 0::real) j - 0 > ai_time_limit ?g" by simp
  have v: "unpruned_best_move 3 ''X'' ''O'' ?g = Some (1, 1)" by code_simp
  from pruned_sweep_selects_unpruned_move [OF wf never, of 3 "''X''" "''O''" 0 0 False] wf v
  show ?thesis by simp
qed

end
